theory Spec2Isabelle
  imports Main "HOL-Library.Sublist"
begin

section \<open>JavaScript values\<close>

text \<open>
  The schema documents delivered by the XML parser, the flat configuration, the lookup
  tables of the schema index and the generated document tree are all plain JavaScript
  values. An object is an association list in insertion order, which is the order
  \<open>Object.keys\<close> reports for the keys that occur here (XML names, namespace URIs and
  slash-delimited paths; none of them is a canonical array index, and none is a member of
  \<open>Object.prototype\<close>).
\<close>

datatype jv =
    JUndef
  | JNull
  | JBool bool
  | JNum int
  | JStr string
  | JArr "jv list"
  | JObj "(string \<times> jv) list"

type_synonym obj = "(string \<times> jv) list"

text \<open>JavaScript truthiness, as tested by \<open>if (x)\<close>, \<open>!x\<close> and \<open>x || y\<close>.\<close>

fun truthy :: "jv \<Rightarrow> bool" where
  "truthy JUndef = False"
| "truthy JNull = False"
| "truthy (JBool b) = b"
| "truthy (JNum n) = (n \<noteq> 0)"
| "truthy (JStr s) = (s \<noteq> [])"
| "truthy (JArr xs) = True"
| "truthy (JObj kvs) = True"

text \<open>\<open>o[k]\<close> on the entries of an object: \<open>undefined\<close> for a missing key.\<close>

fun lookup :: "obj \<Rightarrow> string \<Rightarrow> jv" where
  "lookup [] k = JUndef"
| "lookup ((k', v) # kvs) k = (if k' = k then v else lookup kvs k)"

text \<open>
  \<open>x[k]\<close> for a property name \<open>k\<close> of the source. Every receiver in the source is a
  parser node, a table entry or a freshly built object, never \<open>undefined\<close> or \<open>null\<close>;
  on a string, number or array none of the names read here is defined.
\<close>

fun getp :: "jv \<Rightarrow> string \<Rightarrow> jv" where
  "getp (JObj kvs) k = lookup kvs k"
| "getp v k = JUndef"

text \<open>
  \<open>Object.keys(x)\<close>. The keys of a string or an array are index strings; the source only
  searches key lists for XSD names, so they are left out.
\<close>

fun keys :: "jv \<Rightarrow> string list" where
  "keys (JObj kvs) = map fst kvs"
| "keys v = []"

text \<open>\<open>o[k] = v\<close>: an existing key keeps its position, a new key is appended.\<close>

fun objset :: "obj \<Rightarrow> string \<Rightarrow> jv \<Rightarrow> obj" where
  "objset [] k v = [(k, v)]"
| "objset ((k', v') # kvs) k v =
     (if k' = k then (k, v) # kvs else (k', v') # objset kvs k v)"

text \<open>\<open>Object.assign(target, source)\<close>; a \<open>null\<close> source copies nothing.\<close>

definition assign :: "obj \<Rightarrow> jv \<Rightarrow> obj" where
  "assign target source =
     (case source of
        JObj kvs \<Rightarrow> foldl (\<lambda>t (k, v). objset t k v) target kvs
      | _ \<Rightarrow> target)"

text \<open>The own enumerable entries copied by a spread \<open>{ ...x }\<close>.\<close>

fun spread :: "jv \<Rightarrow> obj" where
  "spread (JObj kvs) = kvs"
| "spread v = []"

subsection \<open>Strings\<close>

definition startsWith :: "string \<Rightarrow> string \<Rightarrow> bool" where
  "startsWith s p = prefix p s"

definition endsWith :: "string \<Rightarrow> string \<Rightarrow> bool" where
  "endsWith s p = suffix p s"

fun strIncludes :: "string \<Rightarrow> string \<Rightarrow> bool" where
  "strIncludes [] p = (p = [])"
| "strIncludes (c # cs) p = (prefix p (c # cs) \<or> strIncludes cs p)"

text \<open>\<open>s.split(c)\<close> for a one-character separator.\<close>

fun split :: "char \<Rightarrow> string \<Rightarrow> string list" where
  "split c [] = [[]]"
| "split c (x # xs) =
     (if x = c then [] # split c xs
      else (case split c xs of w # ws \<Rightarrow> (x # w) # ws | [] \<Rightarrow> [[x]]))"

text \<open>\<open>xs[i]\<close> on an array: \<open>undefined\<close> (here \<open>None\<close>) out of range.\<close>

fun at :: "'a list \<Rightarrow> nat \<Rightarrow> 'a option" where
  "at [] i = None"
| "at (x # xs) 0 = Some x"
| "at (x # xs) (Suc i) = at xs i"

text \<open>Decimal rendering of an array index inside a template literal.\<close>

fun dec :: "nat \<Rightarrow> string" where
  "dec n = (if n < 10 then [''0123456789'' ! n]
            else dec (n div 10) @ [''0123456789'' ! (n mod 10)])"

declare dec.simps [simp del]

text \<open>
  String conversion, as performed by template literals and by property keys. Attribute
  values delivered by the parser are strings (attribute value parsing is off), and so are
  the names handed in by callers, so the string methods of the source (\<open>includes\<close>,
  \<open>split\<close>, \<open>startsWith\<close>) are applied to strings only; the other cases are the
  conversions JavaScript performs (an array joins its elements with commas).
\<close>

fun joinComma :: "string list \<Rightarrow> string" where
  "joinComma [] = []"
| "joinComma [s] = s"
| "joinComma (s # t # ss) = s @ '','' @ joinComma (t # ss)"

fun toStr :: "jv \<Rightarrow> string" where
  "toStr JUndef = ''undefined''"
| "toStr JNull = ''null''"
| "toStr (JBool b) = (if b then ''true'' else ''false'')"
| "toStr (JNum n) = (if n < 0 then CHR ''-'' # dec (nat (- n)) else dec (nat n))"
| "toStr (JStr s) = s"
| "toStr (JArr xs) =
     joinComma (map (\<lambda>x. if x = JUndef \<or> x = JNull then [] else toStr x) xs)"
| "toStr (JObj kvs) = ''[object Object]''"

section \<open>The schema index (lib/schema.js)\<close>

record schemaContext =
  basePath :: string
  schemas :: obj
  elements :: obj
  types :: obj
  groups :: obj
  processedFiles :: "string set"

text \<open>The key test used throughout: \<open>k.endsWith(':' + name) || k === name\<close>.\<close>

definition named :: "string \<Rightarrow> string \<Rightarrow> bool" where
  "named name k = (endsWith k (CHR '':'' # name) \<or> k = name)"

definition ensureArray :: "jv \<Rightarrow> string \<Rightarrow> jv list" where
  "ensureArray root keySuffix =
     (case find (named keySuffix) (keys root) of
        None \<Rightarrow> []
      | Some m \<Rightarrow> (case getp root m of JArr xs \<Rightarrow> xs | val \<Rightarrow> [val]))"

text \<open>\<open>name.includes(':') ? name.split(':')[1] : name\<close>\<close>

definition localNameOf :: "string \<Rightarrow> string" where
  "localNameOf name =
     (if strIncludes name '':'' then (case at (split CHR '':'' name) 1 of Some l \<Rightarrow> l | None \<Rightarrow> ''undefined'')
      else name)"

text \<open>
  The lookup shared by \<open>getElement\<close> and \<open>getGroup\<close>: exact key first, then the first
  registered key that ends in \<open>}localName\<close> or equals \<open>localName\<close>.
\<close>

definition lookupByName :: "obj \<Rightarrow> jv \<Rightarrow> jv" where
  "lookupByName table name =
     (if \<not> truthy name then JNull
      else if truthy (lookup table (toStr name)) then lookup table (toStr name)
      else
        (let localName = localNameOf (toStr name) in
         case find (\<lambda>k. endsWith k (CHR ''}'' # localName) \<or> k = localName) (map fst table) of
           Some key \<Rightarrow> (if key \<noteq> [] then lookup table key else JNull)
         | None \<Rightarrow> JNull))"

definition getElement :: "schemaContext \<Rightarrow> jv \<Rightarrow> jv" where
  "getElement ctx name = lookupByName (elements ctx) name"

definition getGroup :: "schemaContext \<Rightarrow> jv \<Rightarrow> jv" where
  "getGroup ctx name = lookupByName (groups ctx) name"

text \<open>
  \<open>findType(name, currentSchema)\<close>. When the fallback search finds no key, the source
  reads \<open>this.types[undefined]\<close>, that is the entry under the key \<open>undefined\<close>.
\<close>

definition findType :: "schemaContext \<Rightarrow> jv \<Rightarrow> jv \<Rightarrow> jv" where
  "findType ctx name currentSchema =
     (if \<not> truthy name then JNull
      else if startsWith (toStr name) ''xs:'' \<or> startsWith (toStr name) ''xsd:''
      then JObj [(''isSimple'', JBool True), (''builtIn'', JBool True), (''name'', name)]
      else
        (let parts = split CHR '':'' (toStr name);
             hasColon = strIncludes (toStr name) '':'';
             localName = (if hasColon then (case at parts 1 of Some l \<Rightarrow> l | None \<Rightarrow> ''undefined'')
                          else toStr name);
             namespace =
               (if hasColon \<and> truthy currentSchema
                then (case find (\<lambda>k. k = ''@_xmlns:'' @ hd parts) (keys currentSchema) of
                        Some xmlnsKey \<Rightarrow> getp currentSchema xmlnsKey
                      | None \<Rightarrow> JNull)
                else JNull);
             key = (if truthy namespace then ''{'' @ toStr namespace @ ''}'' @ localName
                    else localName)
         in if truthy (lookup (types ctx) key) then lookup (types ctx) key
            else
              (case find (\<lambda>k. endsWith k (CHR ''}'' # localName) \<or> k = localName)
                      (map fst (types ctx)) of
                 Some fallbackKey \<Rightarrow> lookup (types ctx) fallbackKey
               | None \<Rightarrow> lookup (types ctx) ''undefined'')))"

text \<open>
  \<open>getNamespaces\<close>: the inner callback over the keys of one schema root, and the outer
  loop over \<open>Object.values(this.schemas)\<close>.
\<close>

definition collectNamespace :: "jv \<Rightarrow> obj \<Rightarrow> string \<Rightarrow> obj" where
  "collectNamespace schemaRoot namespaces key =
     (if startsWith key ''@_xmlns:''
      then objset namespaces (drop 8 key) (getp schemaRoot key)
      else namespaces)"

definition getNamespaces :: "schemaContext \<Rightarrow> obj" where
  "getNamespaces ctx =
     foldl (\<lambda>namespaces schemaRoot.
              if \<not> truthy schemaRoot then namespaces
              else foldl (collectNamespace schemaRoot) namespaces (keys schemaRoot))
           [] (map snd (schemas ctx))"

section \<open>The tree generator (lib/generator.js)\<close>

record generator =
  ctx :: schemaContext
  config :: obj
  nsMap :: obj
  substitutions :: obj

definition getValueFromConfig :: "generator \<Rightarrow> string \<Rightarrow> jv" where
  "getValueFromConfig g path = lookup (config g) path"

definition hasConfigPrefix :: "generator \<Rightarrow> string \<Rightarrow> bool" where
  "hasConfigPrefix g p = list_ex (\<lambda>k. startsWith k p) (map fst (config g))"

definition isMandatory :: "jv \<Rightarrow> bool" where
  "isMandatory el = (truthy (getp el ''@_minOccurs'') \<and> getp el ''@_minOccurs'' \<noteq> JStr ''0'')"

definition getPrefix :: "generator \<Rightarrow> jv \<Rightarrow> jv" where
  "getPrefix g ns =
     (if \<not> truthy ns then JNull
      else if truthy (lookup (nsMap g) (toStr ns)) then lookup (nsMap g) (toStr ns)
      else JNull)"

text \<open>
  \<open>processAttributes\<close>: the callback applied to one attribute declaration, returning the
  updated result object, and the \<open>forEach\<close> over the declared attributes.
\<close>

definition processAttribute :: "generator \<Rightarrow> string \<Rightarrow> obj \<Rightarrow> jv \<Rightarrow> obj" where
  "processAttribute g currentPath resultObj attr =
     (let name = getp attr ''@_name'' in
      if \<not> truthy name then resultObj
      else
        (let fixed = getp attr ''@_fixed'' in
         if truthy fixed then objset resultObj (''@_'' @ toStr name) fixed
         else
           (let val = getValueFromConfig g (currentPath @ ''/@'' @ toStr name) in
            if val \<noteq> JUndef then objset resultObj (''@_'' @ toStr name) val
            else resultObj)))"

definition processAttributes :: "generator \<Rightarrow> jv \<Rightarrow> string \<Rightarrow> obj \<Rightarrow> obj" where
  "processAttributes g parentDef currentPath resultObj =
     foldl (processAttribute g currentPath) resultObj (ensureArray parentDef ''attribute'')"


text \<open>
  \<open>parseInt(x)\<close> on the string form of \<open>x\<close>: leading white space, an optional sign, then
  decimal digits; \<open>None\<close> stands for \<open>NaN\<close>. (The hexadecimal form \<open>0x...\<close> is not a
  value of \<open>maxOccurs\<close>; it is read here as the digit 0.)
\<close>

definition isSpace :: "char \<Rightarrow> bool" where
  "isSpace c = (c \<in> set [CHR '' '', CHR 0x09, CHR 0x0A, CHR 0x0D])"

definition isDigit :: "char \<Rightarrow> bool" where
  "isDigit c = (c \<in> set ''0123456789'')"

definition parseInt :: "jv \<Rightarrow> int option" where
  "parseInt x =
     (let s = dropWhile isSpace (toStr x);
          neg = (s \<noteq> [] \<and> hd s = CHR ''-'');
          t = (if s \<noteq> [] \<and> (hd s = CHR ''-'' \<or> hd s = CHR ''+'') then tl s else s);
          ds = takeWhile isDigit t
      in if ds = [] then None
         else Some ((if neg then - 1 else 1)
                    * foldl (\<lambda>a c. 10 * a + (of_char c - 48)) 0 ds))"

subsection \<open>The recursive methods\<close>

text \<open>
  \<open>processElement\<close>, \<open>processComplexType\<close> and \<open>processGroup\<close> call one another through
  the schema, which may refer to itself, so the recursion need not end. Each method is
  written over \<open>self\<close>, the three methods with one level of call depth less; \<open>run\<close> ties
  them together over a depth budget, \<open>None\<close> meaning that the budget is used up. The
  \<open>filterPath\<close> argument is handed down unchanged and never read, and the debug logging has
  no effect on the result; both are left out.
\<close>

datatype call =
    ProcessElement jv string
  | ProcessComplexType jv string
  | ProcessGroup jv string

type_synonym methods = "call \<Rightarrow> jv option"

text \<open>The leaf case of \<open>processElement\<close>: \<open>val !== undefined ? val : null\<close>.\<close>

definition leafValue :: "generator \<Rightarrow> string \<Rightarrow> jv" where
  "leafValue g currentPath =
     (let val = getValueFromConfig g currentPath in if val \<noteq> JUndef then val else JNull)"

definition processElement :: "methods \<Rightarrow> generator \<Rightarrow> jv \<Rightarrow> string \<Rightarrow> jv option" where
  "processElement self g elementDef currentPath =
     (let typeName = getp elementDef ''@_type'';
          typeDef =
            (if truthy typeName then findType (ctx g) typeName (getp elementDef ''_schema'')
             else
               (let ks = keys elementDef;
                    ctKey = find (named ''complexType'') ks;
                    stKey = find (named ''simpleType'') ks
                in case ctKey of
                     Some ct \<Rightarrow>
                       JObj (objset (spread (getp elementDef ct)) ''_schema'' (getp elementDef ''_schema''))
                   | None \<Rightarrow>
                       (case stKey of
                          Some st \<Rightarrow>
                            JObj (objset (spread (getp elementDef st)) ''_schema''
                                    (getp elementDef ''_schema''))
                        | None \<Rightarrow> JNull)))
      in if \<not> truthy typeDef then Some (leafValue g currentPath)
         else if truthy (getp typeDef ''builtIn'') then Some (leafValue g currentPath)
         else if \<not> truthy (getp typeDef ''complexContent'')
                 \<and> list_ex (\<lambda>k. strIncludes k ''restriction'' \<or> strIncludes k ''union''
                                   \<or> strIncludes k ''list'') (keys typeDef)
         then Some (leafValue g currentPath)
         else self (ProcessComplexType typeDef currentPath))"

text \<open>\<open>Object.keys(result).length > 0 ? result : null\<close>\<close>

definition nonEmptyOrNull :: "obj \<Rightarrow> jv" where
  "nonEmptyOrNull result = (if length result > 0 then JObj result else JNull)"

definition processComplexType :: "methods \<Rightarrow> generator \<Rightarrow> jv \<Rightarrow> string \<Rightarrow> jv option" where
  "processComplexType self g typeDef currentPath =
     (case find (named ''complexContent'') (keys typeDef) of
        Some contentKey \<Rightarrow>
          (case find (named ''extension'') (keys (getp typeDef contentKey)) of
             Some extensionKey \<Rightarrow>
               (let extension = getp (getp typeDef contentKey) extensionKey;
                    result = processAttributes g extension currentPath [];
                    baseType = getp extension ''@_base'';
                    baseDef = (if truthy baseType
                               then findType (ctx g) baseType (getp typeDef ''_schema'')
                               else JNull);
                    extensionWithSchema =
                      JObj (objset (spread extension) ''_schema'' (getp typeDef ''_schema''))
                in case (if truthy baseDef
                         then (case self (ProcessComplexType baseDef currentPath) of
                                 None \<Rightarrow> None
                               | Some baseContent \<Rightarrow> Some (assign result baseContent))
                         else Some result) of
                     None \<Rightarrow> None
                   | Some result1 \<Rightarrow>
                       (case self (ProcessGroup extensionWithSchema currentPath) of
                          None \<Rightarrow> None
                        | Some extInfo \<Rightarrow> Some (nonEmptyOrNull (assign result1 extInfo))))
           | None \<Rightarrow> Some (nonEmptyOrNull []))
      | None \<Rightarrow>
          (let result = processAttributes g typeDef currentPath [] in
           case self (ProcessGroup typeDef currentPath) of
             None \<Rightarrow> None
           | Some groupContent \<Rightarrow> Some (nonEmptyOrNull (assign result groupContent))))"

text \<open>
  The start of the element callback of \<open>processGroup\<close>: substitution of the \<open>ref\<close>, then
  the resolution of the element definition and of its name. \<open>None\<close> is the early
  \<open>return\<close> of the callback for a reference that cannot be resolved.
\<close>

definition resolveElement :: "generator \<Rightarrow> jv \<Rightarrow> (jv \<times> jv) option" where
  "resolveElement g el =
     (let name = getp el ''@_name'';
          ref0 = getp el ''@_ref'';
          ref = (if truthy ref0 \<and> truthy (lookup (substitutions g) (toStr ref0))
                 then lookup (substitutions g) (toStr ref0) else ref0)
      in if truthy ref then
           (let elementDef0 = getElement (ctx g) ref;
                elementDef =
                  (if \<not> truthy elementDef0 \<and> strIncludes (toStr ref) '':''
                   then getElement (ctx g)
                          (case at (split CHR '':'' (toStr ref)) 1 of Some l \<Rightarrow> JStr l | None \<Rightarrow> JUndef)
                   else elementDef0)
            in if \<not> truthy elementDef then None
               else Some (elementDef, getp elementDef ''@_name''))
         else Some (el, name))"

text \<open>The output key of an element: its namespace prefix, if one is known, and its name.\<close>

definition elementKey :: "generator \<Rightarrow> jv \<Rightarrow> string \<Rightarrow> string" where
  "elementKey g elementDef elName =
     (let ns = (if truthy (getp elementDef ''@_targetNamespace'')
                then getp elementDef ''@_targetNamespace''
                else if truthy (getp elementDef ''_schema'')
                then getp (getp elementDef ''_schema'') ''@_targetNamespace''
                else JNull);
          pfx = getPrefix g ns
      in if truthy pfx then toStr pfx @ '':'' @ elName else elName)"

text \<open>
  Each key of the configuration that starts with an indexed item path bounds the index: the
  index has no more digits than the key has characters.
\<close>

lemma dec_bound: "n < 10 ^ length (dec n)"
proof (induction n rule: dec.induct)
  case (1 n)
  show ?case
  proof (cases "n < 10")
    case True
    then show ?thesis by (subst dec.simps) simp
  next
    case False
    then have "n div 10 < 10 ^ length (dec (n div 10))" using 1 by simp
    then have "n < 10 * 10 ^ length (dec (n div 10))" by simp
    then show ?thesis using False by (subst dec.simps) simp
  qed
qed

lemma hasConfigPrefix_index_bound:
  assumes "hasConfigPrefix g (a @ dec idx @ b)"
  shows "idx < 10 ^ Max (insert 0 (length ` fst ` set (config g)))"
proof -
  obtain k where k: "k \<in> fst ` set (config g)" and p: "prefix (a @ dec idx @ b) k"
    using assms unfolding hasConfigPrefix_def startsWith_def list_ex_iff by auto
  have "length (dec idx) \<le> length k" using prefix_length_le[OF p] by simp
  also have "length k \<le> Max (insert 0 (length ` fst ` set (config g)))"
    using k by (intro Max_ge) auto
  finally have "(10::nat) ^ length (dec idx) \<le> 10 ^ Max (insert 0 (length ` fst ` set (config g)))"
    by (intro power_increasing) auto
  then show ?thesis using dec_bound[of idx] by linarith
qed

text \<open>
  The \<open>while (true)\<close> loop of the array branch, from index \<open>idx\<close> with the items pushed so
  far. Both branches on \<open>isMandatory(el)\<close> leave the loop.
\<close>

function arrayLoop ::
  "methods \<Rightarrow> generator \<Rightarrow> jv \<Rightarrow> jv \<Rightarrow> string \<Rightarrow> string \<Rightarrow> nat \<Rightarrow> jv list \<Rightarrow> jv list option" where
  "arrayLoop self g el elementDef currentPath elName idx items =
     (let indexedPath = currentPath @ ''/'' @ elName @ ''['' @ dec idx @ '']'';
          singletonPath = currentPath @ ''/'' @ elName;
          isSingleton = (idx = 0 \<and> \<not> hasConfigPrefix g indexedPath
                         \<and> hasConfigPrefix g singletonPath);
          itemPath = (if isSingleton then singletonPath else indexedPath)
      in if \<not> hasConfigPrefix g itemPath then Some items
         else
           (case self (ProcessElement elementDef itemPath) of
              None \<Rightarrow> None
            | Some childContent \<Rightarrow>
                if truthy childContent then
                  (if isSingleton then Some (items @ [childContent])
                   else arrayLoop self g el elementDef currentPath elName (Suc idx)
                          (items @ [childContent]))
                else if isMandatory el then Some items
                else Some items))"
  by pat_completeness auto
termination
proof (relation "measure (\<lambda>(self, g, el, elementDef, currentPath, elName, idx, items).
                   10 ^ Max (insert 0 (length ` fst ` set (config g))) - idx)", goal_cases)
  case 1
  show ?case by simp
next
  case (2 self g el elementDef currentPath elName idx items indexedPath singletonPath
          isSingleton itemPath childContent)
  have "hasConfigPrefix g (currentPath @ ''/'' @ elName @ ''['' @ dec idx @ '']'')"
    using 2 by (simp split: if_splits)
  then have "hasConfigPrefix g ((currentPath @ ''/'' @ elName @ ''['') @ dec idx @ '']'')"
    by simp
  from hasConfigPrefix_index_bound[OF this] show ?case by simp
qed

declare arrayLoop.simps [simp del]

text \<open>
  Inline elements take the schema context of their parent:
  \<open>if (!elementDef._schema && parentDef._schema) elementDef = { ...elementDef, _schema: parentDef._schema }\<close>.
\<close>

definition withParentSchema :: "jv \<Rightarrow> jv \<Rightarrow> jv" where
  "withParentSchema parentDef elementDef =
     (if \<not> truthy (getp elementDef ''_schema'') \<and> truthy (getp parentDef ''_schema'')
      then JObj (objset (spread elementDef) ''_schema'' (getp parentDef ''_schema''))
      else elementDef)"

text \<open>\<open>maxOccurs === 'unbounded' || parseInt(maxOccurs) > 1\<close>\<close>

definition isArray :: "jv \<Rightarrow> bool" where
  "isArray el =
     (let maxOccurs = getp el ''@_maxOccurs'' in
      maxOccurs = JStr ''unbounded''
      \<or> (case parseInt maxOccurs of Some n \<Rightarrow> n > 1 | None \<Rightarrow> False))"

text \<open>The callback of \<open>elements.forEach\<close> in \<open>processGroup\<close>, returning the updated result.\<close>

definition processGroupElement ::
  "methods \<Rightarrow> generator \<Rightarrow> jv \<Rightarrow> string \<Rightarrow> obj \<Rightarrow> jv \<Rightarrow> obj option" where
  "processGroupElement self g parentDef currentPath result el =
     (case resolveElement g el of
        None \<Rightarrow> Some result
      | Some (elementDef0, elName) \<Rightarrow>
          if \<not> truthy elName then Some result
          else
            (let elementDef = withParentSchema parentDef elementDef0;
                 key = elementKey g elementDef (toStr elName)
             in if isArray el then
                  (case arrayLoop self g el elementDef currentPath (toStr elName) 0 [] of
                     None \<Rightarrow> None
                   | Some items \<Rightarrow>
                       Some (if length items > 0 then objset result key (JArr items) else result))
                else
                  (case self (ProcessElement elementDef (currentPath @ ''/'' @ toStr elName)) of
                     None \<Rightarrow> None
                   | Some childContent \<Rightarrow>
                       Some (if childContent \<noteq> JNull then objset result key childContent
                             else result))))"

text \<open>A \<open>forEach\<close> whose callback updates the result and may exhaust the depth budget.\<close>

fun forEach :: "('s \<Rightarrow> 'a \<Rightarrow> 's option) \<Rightarrow> 's \<Rightarrow> 'a list \<Rightarrow> 's option" where
  "forEach f s [] = Some s"
| "forEach f s (x # xs) = (case f s x of None \<Rightarrow> None | Some s' \<Rightarrow> forEach f s' xs)"

text \<open>The callbacks of the loops over nested choices, sequences and group references.\<close>

definition processNested ::
  "methods \<Rightarrow> string \<Rightarrow> jv \<Rightarrow> string \<Rightarrow> obj \<Rightarrow> jv \<Rightarrow> obj option" where
  "processNested self kind parentDef currentPath result sub =
     (case self (ProcessGroup (JObj [(kind, sub), (''_schema'', getp parentDef ''_schema'')])
                   currentPath) of
        None \<Rightarrow> None
      | Some subResult \<Rightarrow> Some (assign result subResult))"

definition processGroupRef ::
  "methods \<Rightarrow> generator \<Rightarrow> string \<Rightarrow> obj \<Rightarrow> jv \<Rightarrow> obj option" where
  "processGroupRef self g currentPath result gr =
     (let groupDef = getGroup (ctx g) (getp gr ''@_ref'') in
      if truthy groupDef then
        (case self (ProcessGroup groupDef currentPath) of
           None \<Rightarrow> None
         | Some subResult \<Rightarrow> Some (assign result subResult))
      else Some result)"

text \<open>\<open>sequence || choice || all\<close>\<close>

definition groupKeyOf :: "jv \<Rightarrow> string option" where
  "groupKeyOf parentDef =
     (case find (named ''sequence'') (keys parentDef) of
        Some k \<Rightarrow> Some k
      | None \<Rightarrow>
          (case find (named ''choice'') (keys parentDef) of
             Some k \<Rightarrow> Some k
           | None \<Rightarrow> find (named ''all'') (keys parentDef)))"

definition processGroup :: "methods \<Rightarrow> generator \<Rightarrow> jv \<Rightarrow> string \<Rightarrow> jv option" where
  "processGroup self g parentDef currentPath =
     (case groupKeyOf parentDef of
        None \<Rightarrow> Some (JObj [])
      | Some groupKey \<Rightarrow>
          (let container = getp parentDef groupKey in
           case forEach (processGroupElement self g parentDef currentPath) []
                  (ensureArray container ''element'') of
             None \<Rightarrow> None
           | Some r1 \<Rightarrow>
               (case forEach (processNested self ''choice'' parentDef currentPath) r1
                       (ensureArray container ''choice'') of
                  None \<Rightarrow> None
                | Some r2 \<Rightarrow>
                    (case forEach (processNested self ''sequence'' parentDef currentPath) r2
                            (ensureArray container ''sequence'') of
                       None \<Rightarrow> None
                     | Some r3 \<Rightarrow>
                         (case forEach (processGroupRef self g currentPath) r3
                                 (ensureArray container ''group'') of
                            None \<Rightarrow> None
                          | Some r4 \<Rightarrow> Some (JObj r4))))))"

definition dispatch :: "generator \<Rightarrow> methods \<Rightarrow> methods" where
  "dispatch g self c =
     (case c of
        ProcessElement elementDef currentPath \<Rightarrow> processElement self g elementDef currentPath
      | ProcessComplexType typeDef currentPath \<Rightarrow> processComplexType self g typeDef currentPath
      | ProcessGroup parentDef currentPath \<Rightarrow> processGroup self g parentDef currentPath)"

primrec run :: "generator \<Rightarrow> nat \<Rightarrow> methods" where
  "run g 0 = (\<lambda>c. None)"
| "run g (Suc depth) = dispatch g (run g depth)"

text \<open>
  \<open>generate\<close>. The one \<open>throw\<close> of the source is the error value; \<open>Inr JNull\<close> is the
  \<open>null\<close> return for empty content.
\<close>

datatype error = RootElementNotFound string

definition resolveRoot :: "generator \<Rightarrow> string \<Rightarrow> jv" where
  "resolveRoot g rootElementName =
     (let rootEl = getElement (ctx g) (JStr rootElementName) in
      if \<not> truthy rootEl then
        getElement (ctx g)
          (case at (split CHR '':'' rootElementName) 1 of
             Some l \<Rightarrow> (if l \<noteq> [] then JStr l else JStr rootElementName)
           | None \<Rightarrow> JStr rootElementName)
      else rootEl)"

definition generate ::
  "generator \<Rightarrow> nat \<Rightarrow> string \<Rightarrow> string \<Rightarrow> jv \<Rightarrow> (error + jv) option" where
  "generate g depth rootElementName startPath typeOverride =
     (let rootEl = resolveRoot g rootElementName in
      if \<not> truthy rootEl then Some (Inl (RootElementNotFound rootElementName))
      else
        (let rootKey = elementKey g rootEl rootElementName;
             content =
               (if truthy typeOverride then
                  (let typeDef = findType (ctx g) typeOverride (getp rootEl ''_schema'') in
                   if truthy typeDef then
                     (case run g depth (ProcessComplexType typeDef startPath) of
                        None \<Rightarrow> None
                      | Some c \<Rightarrow>
                          Some (if truthy c then JObj (objset (spread c) ''@_xsi:type'' typeOverride)
                                else c))
                   else run g depth (ProcessElement rootEl startPath))
                else run g depth (ProcessElement rootEl startPath))
         in case content of
              None \<Rightarrow> None
            | Some c \<Rightarrow> Some (Inr (if c = JNull then JNull else JObj [(rootKey, c)]))))"

section \<open>Loading schemas (lib/schema.js)\<close>

text \<open>
  The file system and Node's path functions, as \<open>loadSchema\<close> uses them: \<open>files\<close> maps
  each existing absolute path to what the XML parser returns for its content.
\<close>

record host =
  resolve :: "string \<Rightarrow> string \<Rightarrow> string"
  dirname :: "string \<Rightarrow> string"
  join :: "string \<Rightarrow> string \<Rightarrow> string"
  files :: obj

text \<open>
  The callback shared by the four indexing loops (elements, complex types, simple types,
  groups), on the table the loop writes to.
\<close>

definition indexEntity :: "jv \<Rightarrow> jv \<Rightarrow> obj \<Rightarrow> jv \<Rightarrow> obj" where
  "indexEntity schemaRoot targetNamespace table e =
     (let name = getp e ''@_name'' in
      if truthy name then
        (let key = (if truthy targetNamespace
                    then ''{'' @ toStr targetNamespace @ ''}'' @ toStr name
                    else toStr name);
             table1 = objset table key (JObj (objset (spread e) ''_schema'' schemaRoot))
         in if \<not> truthy (lookup table1 (toStr name))
            then objset table1 (toStr name) (lookup table1 key)
            else table1)
      else table)"

definition indexSchema :: "jv \<Rightarrow> jv \<Rightarrow> schemaContext \<Rightarrow> schemaContext" where
  "indexSchema schemaRoot targetNamespace c =
     c\<lparr>elements := foldl (indexEntity schemaRoot targetNamespace) (elements c)
                      (ensureArray schemaRoot ''element''),
       types := foldl (indexEntity schemaRoot targetNamespace)
                   (foldl (indexEntity schemaRoot targetNamespace) (types c)
                      (ensureArray schemaRoot ''complexType''))
                   (ensureArray schemaRoot ''simpleType''),
       groups := foldl (indexEntity schemaRoot targetNamespace) (groups c)
                    (ensureArray schemaRoot ''group'')\<rparr>"

text \<open>The callback of the loop over imports and includes; \<open>load\<close> is \<open>this.loadSchema\<close>.\<close>

definition loadRef ::
  "(schemaContext \<Rightarrow> string \<Rightarrow> schemaContext option) \<Rightarrow> host \<Rightarrow> string \<Rightarrow> schemaContext \<Rightarrow> jv
     \<Rightarrow> schemaContext option" where
  "loadRef load h filePath c ref =
     (let location = getp ref ''@_schemaLocation'' in
      if truthy location then load c (join h (dirname h filePath) (toStr location))
      else Some c)"

text \<open>
  \<open>loadSchema\<close> calls itself for every import and include, so it carries a budget of
  nested calls; \<open>None\<close> means that the budget is used up.
\<close>

definition loadSchemaBody ::
  "(schemaContext \<Rightarrow> string \<Rightarrow> schemaContext option) \<Rightarrow> host \<Rightarrow> schemaContext \<Rightarrow> string
     \<Rightarrow> schemaContext option" where
  "loadSchemaBody load h c filePath =
     (let fullPath = resolve h (basePath c) filePath in
      if fullPath \<in> processedFiles c then Some c
      else if fullPath \<notin> set (map fst (files h)) then Some c
      else
        (let json = lookup (files h) fullPath in
         case find (named ''schema'') (keys json) of
           None \<Rightarrow> Some c
         | Some schemaKey \<Rightarrow>
             (let schemaRoot = getp json schemaKey;
                  c1 = c\<lparr>processedFiles := insert fullPath (processedFiles c)\<rparr>;
                  targetNamespace = getp schemaRoot ''@_targetNamespace'';
                  c2 = c1\<lparr>schemas := objset (schemas c1) (toStr targetNamespace) schemaRoot\<rparr>
              in case forEach (loadRef load h filePath) c2
                        (ensureArray schemaRoot ''import'' @ ensureArray schemaRoot ''include'') of
                   None \<Rightarrow> None
                 | Some c3 \<Rightarrow> Some (indexSchema schemaRoot targetNamespace c3))))"

primrec loadSchema :: "host \<Rightarrow> nat \<Rightarrow> schemaContext \<Rightarrow> string \<Rightarrow> schemaContext option" where
  "loadSchema h 0 = (\<lambda>c filePath. None)"
| "loadSchema h (Suc budget) = loadSchemaBody (loadSchema h budget) h"

section \<open>Auxiliary definitions and example inputs\<close>

text \<open>The result key and the configuration probe of one attribute declaration.\<close>

definition attrKey :: "jv \<Rightarrow> string" where
  "attrKey a = ''@_'' @ toStr (getp a ''@_name'')"

definition attrProbe :: "generator \<Rightarrow> string \<Rightarrow> jv \<Rightarrow> jv" where
  "attrProbe g path a = getValueFromConfig g (path @ ''/@'' @ toStr (getp a ''@_name''))"

text \<open>One step of the outer loop of \<open>getNamespaces\<close>.\<close>

definition nsStep :: "obj \<Rightarrow> jv \<Rightarrow> obj" where
  "nsStep namespaces schemaRoot =
     (if \<not> truthy schemaRoot then namespaces
      else foldl (collectNamespace schemaRoot) namespaces (keys schemaRoot))"


text \<open>An attribute declaration without a fixed value, configured with and without the sigil.\<close>

definition emptyContext :: schemaContext where
  "emptyContext = \<lparr>basePath = ''/'', schemas = [], elements = [], types = [], groups = [],
                    processedFiles = {}\<rparr>"

definition attrDecl :: jv where
  "attrDecl = JObj [(''@_name'', JStr ''version'')]"

definition attrParent :: jv where
  "attrParent = JObj [(''xs:attribute'', attrDecl)]"

definition attrGenBare :: generator where
  "attrGenBare = \<lparr>ctx = emptyContext, config = [(''P/version'', JStr ''1'')], nsMap = [],
                   substitutions = []\<rparr>"

definition attrGenSigil :: generator where
  "attrGenSigil = \<lparr>ctx = emptyContext, config = [(''P/@version'', JStr ''1'')], nsMap = [],
                    substitutions = []\<rparr>"

text \<open>Two loaded schemas that bind the same prefix to different URIs.\<close>

definition twoSchemas :: schemaContext where
  "twoSchemas = \<lparr>basePath = ''/'',
     schemas = [(''urn:a'', JObj [(''@_xmlns:p'', JStr ''urn:a'')]),
                (''urn:b'', JObj [(''@_xmlns:p'', JStr ''urn:b'')])],
     elements = [], types = [], groups = [], processedFiles = {}\<rparr>"

text \<open>
  For the schema loader: the number of existing files not yet processed, the relation
  "an entry present under key \<open>k\<close> is still the same entry", the condition that every
  schema file declares a target namespace, and example file systems (with path functions
  that take every location as it is written).
\<close>

definition unprocessed :: "host \<Rightarrow> schemaContext \<Rightarrow> nat" where
  "unprocessed h c = card (set (map fst (files h)) - processedFiles c)"

definition cycleHost :: host where
  "cycleHost = \<lparr>resolve = (\<lambda>base p. p), dirname = (\<lambda>p. []), join = (\<lambda>dir location. location),
     files =
       [(''a.xsd'', JObj [(''xs:schema'', JObj
           [(''@_targetNamespace'', JStr ''urn:a''),
            (''xs:import'', JObj [(''@_schemaLocation'', JStr ''b.xsd'')]),
            (''xs:element'', JObj [(''@_name'', JStr ''x'')])])]),
        (''b.xsd'', JObj [(''xs:schema'', JObj
           [(''xs:include'', JObj [(''@_schemaLocation'', JStr ''a.xsd'')]),
            (''xs:element'', JObj [(''@_name'', JStr ''x'')])])])]\<rparr>"

definition processedA :: schemaContext where
  "processedA = emptyContext\<lparr>processedFiles := {''a.xsd''}\<rparr>"

definition keepsEntry :: "string \<Rightarrow> obj \<Rightarrow> obj \<Rightarrow> bool" where
  "keepsEntry k table table' = (truthy (lookup table k) \<longrightarrow> lookup table' k = lookup table k)"

definition keepsBare :: "string \<Rightarrow> schemaContext \<Rightarrow> schemaContext \<Rightarrow> bool" where
  "keepsBare k c c' =
     (keepsEntry k (elements c) (elements c') \<and> keepsEntry k (types c) (types c')
      \<and> keepsEntry k (groups c) (groups c'))"

definition allNamespaced :: "host \<Rightarrow> bool" where
  "allNamespaced h =
     list_all (\<lambda>f. case find (named ''schema'') (keys (snd f)) of
                      None \<Rightarrow> True
                    | Some schemaKey \<Rightarrow> truthy (getp (getp (snd f) schemaKey) ''@_targetNamespace''))
       (files h)"

definition namespacedHost :: host where
  "namespacedHost = \<lparr>resolve = (\<lambda>base p. p), dirname = (\<lambda>p. []), join = (\<lambda>dir location. location),
     files =
       [(''a.xsd'', JObj [(''xs:schema'', JObj
           [(''@_targetNamespace'', JStr ''urn:a''),
            (''xs:element'', JObj [(''@_name'', JStr ''x''), (''@_type'', JStr ''xs:string'')])])]),
        (''b.xsd'', JObj [(''xs:schema'', JObj
           [(''@_targetNamespace'', JStr ''urn:b''),
            (''xs:element'', JObj [(''@_name'', JStr ''x''), (''@_type'', JStr ''xs:date'')])])])]\<rparr>"

definition bareHost :: host where
  "bareHost = \<lparr>resolve = (\<lambda>base p. p), dirname = (\<lambda>p. []), join = (\<lambda>dir location. location),
     files =
       [(''a.xsd'', JObj [(''xs:schema'', JObj
           [(''@_targetNamespace'', JStr ''urn:a''),
            (''xs:element'', JObj [(''@_name'', JStr ''x''), (''@_type'', JStr ''xs:string'')])])]),
        (''b.xsd'', JObj [(''xs:schema'', JObj
           [(''xs:element'', JObj [(''@_name'', JStr ''x''), (''@_type'', JStr ''xs:date'')])])])]\<rparr>"

definition rootA :: jv where
  "rootA = JObj [(''@_targetNamespace'', JStr ''urn:a''),
            (''xs:element'', JObj [(''@_name'', JStr ''x''), (''@_type'', JStr ''xs:string'')])]"

definition entityA :: jv where
  "entityA = JObj [(''@_name'', JStr ''x''), (''@_type'', JStr ''xs:string''), (''_schema'', rootA)]"

definition afterA :: schemaContext where
  "afterA = \<lparr>basePath = ''/'', schemas = [(''urn:a'', rootA)],
             elements = [(''{urn:a}x'', entityA), (''x'', entityA)], types = [], groups = [],
             processedFiles = {''a.xsd''}\<rparr>"

definition rootB :: jv where
  "rootB = JObj [(''@_targetNamespace'', JStr ''urn:b''),
            (''xs:element'', JObj [(''@_name'', JStr ''x''), (''@_type'', JStr ''xs:date'')])]"

definition entityB :: jv where
  "entityB = JObj [(''@_name'', JStr ''x''), (''@_type'', JStr ''xs:date''), (''_schema'', rootB)]"

definition afterAB :: schemaContext where
  "afterAB = \<lparr>basePath = ''/'', schemas = [(''urn:a'', rootA), (''urn:b'', rootB)],
             elements = [(''{urn:a}x'', entityA), (''x'', entityA), (''{urn:b}x'', entityB)],
             types = [], groups = [], processedFiles = {''a.xsd'', ''b.xsd''}\<rparr>"

text \<open>
  For the generator: the indexed item path of the array loop; the order of two keys in a
  key list; the path a call works at; trees made of attribute entries only (attribute
  entries, and nested objects of the same kind); the generator with its configuration
  emptied; and "every result of \<open>self\<close> is a result of \<open>self'\<close>".
\<close>

definition indexedPath :: "string \<Rightarrow> string \<Rightarrow> nat \<Rightarrow> string" where
  "indexedPath currentPath elName idx = currentPath @ ''/'' @ elName @ ''['' @ dec idx @ '']''"

definition precedes :: "'a \<Rightarrow> 'a \<Rightarrow> 'a list \<Rightarrow> bool" where
  "precedes a b xs = (\<exists>us vs ws. xs = us @ a # vs @ b # ws)"

fun callPath :: "call \<Rightarrow> string" where
  "callPath (ProcessElement elementDef currentPath) = currentPath"
| "callPath (ProcessComplexType typeDef currentPath) = currentPath"
| "callPath (ProcessGroup parentDef currentPath) = currentPath"

fun attributesOnly :: "jv \<Rightarrow> bool" where
  "attributesOnly (JObj kvs) =
     list_all (\<lambda>kv. startsWith (fst kv) ''@_'' \<or> attributesOnly (snd kv)) kvs"
| "attributesOnly v = False"

definition noConfig :: "generator \<Rightarrow> generator" where
  "noConfig g = g\<lparr>config := []\<rparr>"

definition extends :: "methods \<Rightarrow> methods \<Rightarrow> bool" where
  "extends self self' = (\<forall>c v. self c = Some v \<longrightarrow> self' c = Some v)"

text \<open>
  A demonstration schema in one namespace: a root element with a leaf child, an unbounded
  element with its own children, a reference that resolves nowhere, a singleton element
  whose type has a fixed attribute, a numeric leaf and a bounded array of numbers; and an
  element whose type extends a base type.
\<close>

definition demoSchema :: jv where
  "demoSchema = JObj [(''@_targetNamespace'', JStr ''urn:demo''), (''@_xmlns:d'', JStr ''urn:demo'')]"

definition childDecl :: jv where
  "childDecl = JObj [(''@_name'', JStr ''Child''), (''@_type'', JStr ''xs:string'')]"

definition itemsDecl :: jv where
  "itemsDecl = JObj [(''@_name'', JStr ''Items''), (''@_maxOccurs'', JStr ''unbounded''),
     (''xs:complexType'', JObj [(''xs:sequence'', JObj [(''xs:element'',
         JObj [(''@_name'', JStr ''v''), (''@_type'', JStr ''xs:string'')])])])]"

definition missingDecl :: jv where
  "missingDecl = JObj [(''@_ref'', JStr ''q:Missing'')]"

definition headerDecl :: jv where
  "headerDecl = JObj [(''@_name'', JStr ''Header''),
     (''xs:complexType'', JObj [(''xs:attribute'',
         JObj [(''@_name'', JStr ''version''), (''@_fixed'', JStr ''1.0'')])])]"

definition countDecl :: jv where
  "countDecl = JObj [(''@_name'', JStr ''Count''), (''@_type'', JStr ''xs:int'')]"

definition numsDecl :: jv where
  "numsDecl = JObj [(''@_name'', JStr ''Nums''), (''@_maxOccurs'', JStr ''5''),
                    (''@_type'', JStr ''xs:int'')]"

definition demoRootType :: jv where
  "demoRootType = JObj [(''@_name'', JStr ''RootType''),
     (''xs:sequence'', JObj [(''xs:element'',
        JArr [childDecl, itemsDecl, missingDecl, headerDecl, countDecl, numsDecl])]),
     (''_schema'', demoSchema)]"

definition demoBaseType :: jv where
  "demoBaseType = JObj [(''@_name'', JStr ''BaseType''),
     (''xs:sequence'', JObj [(''xs:element'',
        JObj [(''@_name'', JStr ''b''), (''@_type'', JStr ''xs:string'')])]),
     (''_schema'', demoSchema)]"

definition demoExtType :: jv where
  "demoExtType = JObj [(''@_name'', JStr ''ExtType''),
     (''xs:complexContent'', JObj [(''xs:extension'', JObj [(''@_base'', JStr ''d:BaseType''),
        (''xs:sequence'', JObj [(''xs:element'',
           JObj [(''@_name'', JStr ''e''), (''@_type'', JStr ''xs:string'')])])])]),
     (''_schema'', demoSchema)]"

definition demoContext :: schemaContext where
  "demoContext = \<lparr>basePath = ''/'', schemas = [(''urn:demo'', demoSchema)],
     elements =
       [(''{urn:demo}Root'', JObj [(''@_name'', JStr ''Root''), (''@_type'', JStr ''d:RootType''),
                                   (''_schema'', demoSchema)]),
        (''{urn:demo}Doc'', JObj [(''@_name'', JStr ''Doc''), (''@_type'', JStr ''d:ExtType''),
                                  (''_schema'', demoSchema)])],
     types = [(''{urn:demo}RootType'', demoRootType), (''{urn:demo}BaseType'', demoBaseType),
              (''{urn:demo}ExtType'', demoExtType)],
     groups = [], processedFiles = {}\<rparr>"

definition demoGen :: "obj \<Rightarrow> generator" where
  "demoGen cfg = \<lparr>ctx = demoContext, config = cfg, nsMap = [(''urn:demo'', JStr ''d'')],
                  substitutions = []\<rparr>"

definition sparseConfig :: obj where
  "sparseConfig = [(''Root/Items[0]/v'', JStr ''a''), (''Root/Items[2]/v'', JStr ''c'')]"

definition falsyConfig :: obj where
  "falsyConfig = [(''Root/Count'', JNum 0), (''Root/Nums[0]'', JNum 3), (''Root/Nums[1]'', JNum 0),
                  (''Root/Nums[2]'', JNum 1)]"

definition extConfig :: obj where
  "extConfig = [(''Doc/e'', JStr ''E''), (''Doc/b'', JStr ''B'')]"

definition childConfig :: obj where
  "childConfig = [(''Root/Child'', JStr ''X'')]"

section \<open>Objects as association lists\<close>

lemma lookup_objset: "lookup (objset r k v) k' = (if k' = k then v else lookup r k')"
  by (induction r) auto

lemma keys_objset: "set (map fst (objset r k v)) = insert k (set (map fst r))"
  by (induction r) force+

section \<open>Attributes\<close>

lemma processAttribute_alt:
  "processAttribute g path r a =
     (if \<not> truthy (getp a ''@_name'') then r
      else if truthy (getp a ''@_fixed'') then objset r (attrKey a) (getp a ''@_fixed'')
      else if attrProbe g path a \<noteq> JUndef then objset r (attrKey a) (attrProbe g path a)
      else r)"
  unfolding processAttribute_def attrKey_def attrProbe_def Let_def by (rule refl)

lemma processAttribute_other_lookup:
  assumes "\<not> (truthy (getp a ''@_name'') \<and> attrKey a = k)"
  shows "lookup (processAttribute g path r a) k = lookup r k"
  using assms unfolding processAttribute_alt by (auto simp: lookup_objset)

lemma processAttribute_other_keys:
  assumes "\<not> (truthy (getp a ''@_name'') \<and> attrKey a = k)"
  shows "k \<in> set (map fst (processAttribute g path r a)) \<longleftrightarrow> k \<in> set (map fst r)"
  using assms unfolding processAttribute_alt by (auto simp: keys_objset simp del: set_map)


lemma processAttribute_same:
  assumes "truthy (getp a ''@_name'')" "attrKey a = k" "\<not> truthy (getp a ''@_fixed'')"
    "attrProbe g path a = pv"
  shows "processAttribute g path r a = (if pv \<noteq> JUndef then objset r k pv else r)"
  unfolding processAttribute_alt using assms by simp

lemma processAttributes_fold_lookup:
  assumes "\<forall>b \<in> set attrs. truthy (getp b ''@_name'') \<and> attrKey b = k \<longrightarrow>
             \<not> truthy (getp b ''@_fixed'') \<and> attrProbe g path b = pv"
  shows "lookup (foldl (processAttribute g path) r attrs) k =
           (if (\<exists>b \<in> set attrs. truthy (getp b ''@_name'') \<and> attrKey b = k) \<and> pv \<noteq> JUndef
            then pv else lookup r k)"
  using assms
proof (induction attrs arbitrary: r)
  case Nil
  then show ?case by simp
next
  case (Cons a attrs)
  have p: "\<forall>b \<in> set attrs. truthy (getp b ''@_name'') \<and> attrKey b = k \<longrightarrow>
             \<not> truthy (getp b ''@_fixed'') \<and> attrProbe g path b = pv"
    using Cons.prems by simp
  note IH = Cons.IH[OF p]
  show ?case
  proof (cases "truthy (getp a ''@_name'') \<and> attrKey a = k")
    case True
    then have nf: "\<not> truthy (getp a ''@_fixed'')" and pr: "attrProbe g path a = pv"
      using Cons.prems by simp_all
    have l: "lookup (processAttribute g path r a) k = (if pv \<noteq> JUndef then pv else lookup r k)"
      using processAttribute_same[of a k g path pv r] True nf pr by (simp add: lookup_objset)
    show ?thesis
      using True by (simp add: IH l)
  next
    case False
    show ?thesis
      using False by (simp add: IH processAttribute_other_lookup[OF False]) blast
  qed
qed

lemma processAttributes_fold_keys:
  assumes "\<forall>b \<in> set attrs. truthy (getp b ''@_name'') \<and> attrKey b = k \<longrightarrow>
             \<not> truthy (getp b ''@_fixed'') \<and> attrProbe g path b = pv"
  shows "k \<in> fst ` set (foldl (processAttribute g path) r attrs) \<longleftrightarrow>
            k \<in> fst ` set r \<or>
            ((\<exists>b \<in> set attrs. truthy (getp b ''@_name'') \<and> attrKey b = k) \<and> pv \<noteq> JUndef)"
  using assms
proof (induction attrs arbitrary: r)
  case Nil
  then show ?case by simp
next
  case (Cons a attrs)
  have p: "\<forall>b \<in> set attrs. truthy (getp b ''@_name'') \<and> attrKey b = k \<longrightarrow>
             \<not> truthy (getp b ''@_fixed'') \<and> attrProbe g path b = pv"
    using Cons.prems by simp
  note IH = Cons.IH[OF p]
  show ?case
  proof (cases "truthy (getp a ''@_name'') \<and> attrKey a = k")
    case True
    then have nf: "\<not> truthy (getp a ''@_fixed'')" and pr: "attrProbe g path a = pv"
      using Cons.prems by simp_all
    have m: "k \<in> fst ` set (processAttribute g path r a) \<longleftrightarrow> (pv \<noteq> JUndef \<or> k \<in> fst ` set r)"
      using processAttribute_same[of a k g path pv r] True nf pr keys_objset[of r k pv] by simp
    show ?thesis
      using True by (simp add: IH m) blast
  next
    case False
    have m: "k \<in> fst ` set (processAttribute g path r a) \<longleftrightarrow> k \<in> fst ` set r"
      using processAttribute_other_keys[OF False, of g path r] by simp
    show ?thesis
      using False by (simp add: IH m) blast
  qed
qed


text \<open>
  C1 (as amended). For a declared attribute with a name and no fixed value (and no
  declaration of the same name that has one), \<open>processAttributes\<close> probes the configuration
  at \<open>path/@name\<close> only: the attribute-marked entry is emitted if and only if that probe
  finds a value, and it carries that value. There is no second probe at \<open>path/name\<close>.
\<close>

theorem processAttributes_sigil_probe_only:
  assumes "a \<in> set (ensureArray parentDef ''attribute'')"
    and "truthy (getp a ''@_name'')"
    and "\<forall>b \<in> set (ensureArray parentDef ''attribute'').
           truthy (getp b ''@_name'') \<and> toStr (getp b ''@_name'') = toStr (getp a ''@_name'')
           \<longrightarrow> \<not> truthy (getp b ''@_fixed'')"
  shows "(''@_'' @ toStr (getp a ''@_name'') \<in> fst ` set (processAttributes g parentDef path [])
            \<longleftrightarrow> getValueFromConfig g (path @ ''/@'' @ toStr (getp a ''@_name'')) \<noteq> JUndef)
       \<and> lookup (processAttributes g parentDef path []) (''@_'' @ toStr (getp a ''@_name''))
            = getValueFromConfig g (path @ ''/@'' @ toStr (getp a ''@_name''))"
proof -
  let ?attrs = "ensureArray parentDef ''attribute''"
  have same: "\<forall>b \<in> set ?attrs. truthy (getp b ''@_name'') \<and> attrKey b = attrKey a \<longrightarrow>
             \<not> truthy (getp b ''@_fixed'') \<and> attrProbe g path b = attrProbe g path a"
    using assms(3) by (simp add: attrKey_def attrProbe_def)
  have ex: "\<exists>b \<in> set ?attrs. truthy (getp b ''@_name'') \<and> attrKey b = attrKey a"
    using assms(1,2) by blast
  have k: "attrKey a \<in> fst ` set (processAttributes g parentDef path [])
             \<longleftrightarrow> attrProbe g path a \<noteq> JUndef"
    unfolding processAttributes_def processAttributes_fold_keys[OF same] using ex by simp
  have l: "lookup (processAttributes g parentDef path []) (attrKey a) = attrProbe g path a"
    unfolding processAttributes_def processAttributes_fold_lookup[OF same] using ex by simp
  show ?thesis using k l unfolding attrKey_def attrProbe_def by simp
qed

theorem processAttributes_sigil_probe_only_witness:
  "attrDecl \<in> set (ensureArray attrParent ''attribute'')
   \<and> truthy (getp attrDecl ''@_name'')
   \<and> lookup (processAttributes attrGenSigil attrParent ''P'' []) ''@_version'' = JStr ''1''"
proof -
  have h1: "attrDecl \<in> set (ensureArray attrParent ''attribute'')" by code_simp
  have h2: "truthy (getp attrDecl ''@_name'')" by code_simp
  have h3: "\<forall>b \<in> set (ensureArray attrParent ''attribute'').
           truthy (getp b ''@_name'') \<and> toStr (getp b ''@_name'') = toStr (getp attrDecl ''@_name'')
           \<longrightarrow> \<not> truthy (getp b ''@_fixed'')" by code_simp
  have n: "toStr (getp attrDecl ''@_name'') = ''version''" by code_simp
  have v: "getValueFromConfig attrGenSigil (''P'' @ ''/@'' @ ''version'') = JStr ''1''" by code_simp
  show ?thesis
    using processAttributes_sigil_probe_only[OF h1 h2 h3, of attrGenSigil "''P''"] h1 h2
    unfolding n v by simp
qed

text \<open>
  C1 as stated fails: with data only at \<open>P/version\<close>, the probe at \<open>P/@version\<close> misses,
  the fallback probe would hit, and no entry is emitted.
\<close>

theorem processAttributes_fallback_counterexample:
  "getValueFromConfig attrGenBare ''P/@version'' = JUndef
   \<and> getValueFromConfig attrGenBare ''P/version'' = JStr ''1''
   \<and> \<not> truthy (getp attrDecl ''@_fixed'')
   \<and> processAttributes attrGenBare attrParent ''P'' [] = []"
  by code_simp


section \<open>Namespace declarations\<close>

lemma prefix_drop_iff: "(prefix x k \<and> drop (length x) k = p) \<longleftrightarrow> k = x @ p"
  by (auto simp: prefix_def)

lemma xmlns_key_iff: "(startsWith k ''@_xmlns:'' \<and> drop 8 k = p) \<longleftrightarrow> k = ''@_xmlns:'' @ p"
proof -
  have len: "length ''@_xmlns:'' = 8" by simp
  show ?thesis
    using prefix_drop_iff[of "''@_xmlns:''" k p] by (simp only: len startsWith_def)
qed

lemma lookup_collectNamespace:
  "lookup (collectNamespace root ns k) p =
     (if k = ''@_xmlns:'' @ p then getp root k else lookup ns p)"
proof (cases "startsWith k ''@_xmlns:''")
  case True
  then have "(drop 8 k = p) \<longleftrightarrow> k = ''@_xmlns:'' @ p"
    using xmlns_key_iff[of k p] by blast
  moreover have "lookup (collectNamespace root ns k) p =
      (if p = drop 8 k then getp root k else lookup ns p)"
    using True unfolding collectNamespace_def by (simp only: lookup_objset if_True)
  ultimately show ?thesis by auto
next
  case False
  then have "k \<noteq> ''@_xmlns:'' @ p"
    using xmlns_key_iff[of k p] by blast
  then show ?thesis using False unfolding collectNamespace_def by (simp only: if_False)
qed

lemma collect_lookup:
  "lookup (foldl (collectNamespace root) ns ks) p =
     (if ''@_xmlns:'' @ p \<in> set ks then getp root (''@_xmlns:'' @ p) else lookup ns p)"
proof (induction ks arbitrary: ns)
  case Nil thus ?case by simp
next
  case (Cons k ks)
  show ?case
    unfolding foldl_Cons Cons lookup_collectNamespace by auto
qed


lemma getNamespaces_alt: "getNamespaces c = foldl nsStep [] (map snd (schemas c))"
  unfolding getNamespaces_def nsStep_def by (rule refl)

lemma lookup_nsStep:
  "lookup (nsStep ns root) p =
     (if ''@_xmlns:'' @ p \<in> set (keys root) then getp root (''@_xmlns:'' @ p) else lookup ns p)"
proof (cases "truthy root")
  case True
  then show ?thesis unfolding nsStep_def by (simp only: collect_lookup if_False simp_thms)
next
  case False
  then have "keys root = []" by (cases root) simp_all
  then show ?thesis using False unfolding nsStep_def by simp
qed

lemma lookup_nsStep_later:
  assumes "\<forall>r \<in> set roots. ''@_xmlns:'' @ p \<notin> set (keys r)"
  shows "lookup (foldl nsStep ns roots) p = lookup ns p"
  using assms
proof (induction roots arbitrary: ns)
  case Nil
  then show ?case by simp
next
  case (Cons r roots)
  have "lookup (foldl nsStep (nsStep ns r) roots) p = lookup (nsStep ns r) p"
    using Cons.IH Cons.prems by simp
  also have "\<dots> = lookup ns p"
    using Cons.prems unfolding lookup_nsStep by simp
  finally show ?case by simp
qed

text \<open>
  C2 (as amended). \<open>getNamespaces\<close> merges the prefix declarations of all loaded schema
  roots, and the binding kept for a prefix is the one of the last visited schema root that
  declares it: a later schema overwrites an earlier one.
\<close>

theorem getNamespaces_last_write_wins:
  assumes "schemas c = earlier @ (tns, schemaRoot) # later"
    and "''@_xmlns:'' @ p \<in> set (keys schemaRoot)"
    and "\<forall>r \<in> set (map snd later). ''@_xmlns:'' @ p \<notin> set (keys r)"
  shows "lookup (getNamespaces c) p = getp schemaRoot (''@_xmlns:'' @ p)"
proof -
  have "lookup (getNamespaces c) p =
        lookup (foldl nsStep (nsStep (foldl nsStep [] (map snd earlier)) schemaRoot) (map snd later)) p"
    unfolding getNamespaces_alt assms(1) by simp
  also have "\<dots> = lookup (nsStep (foldl nsStep [] (map snd earlier)) schemaRoot) p"
    using lookup_nsStep_later[OF assms(3)] by simp
  also have "\<dots> = getp schemaRoot (''@_xmlns:'' @ p)"
    unfolding lookup_nsStep using assms(2) by simp
  finally show ?thesis .
qed

theorem getNamespaces_last_write_wins_witness:
  "lookup (getNamespaces twoSchemas) ''p'' = JStr ''urn:b''"
proof -
  have h1: "schemas twoSchemas = [(''urn:a'', JObj [(''@_xmlns:p'', JStr ''urn:a'')])]
              @ (''urn:b'', JObj [(''@_xmlns:p'', JStr ''urn:b'')]) # []"
    by (simp add: twoSchemas_def)
  have h2: "''@_xmlns:'' @ ''p'' \<in> set (keys (JObj [(''@_xmlns:p'', JStr ''urn:b'')]))" by simp
  have h3: "\<forall>r \<in> set (map snd ([] :: obj)). ''@_xmlns:'' @ ''p'' \<notin> set (keys r)" by simp
  show ?thesis
    using getNamespaces_last_write_wins[OF h1 h2 h3] by simp
qed

text \<open>
  C2 as stated fails: the binding of the first schema is replaced by that of the second.
\<close>

theorem getNamespaces_first_write_counterexample:
  "lookup (getNamespaces twoSchemas) ''p'' \<noteq> getp (snd (hd (schemas twoSchemas))) ''@_xmlns:p''
   \<and> getp (snd (hd (schemas twoSchemas))) ''@_xmlns:p'' = JStr ''urn:a''
   \<and> lookup (getNamespaces twoSchemas) ''p'' = JStr ''urn:b''"
  by code_simp



section \<open>Loading schemas: termination and the bare-name keys\<close>

lemma forEach_total:
  assumes "I s" and "\<And>s x. I s \<Longrightarrow> x \<in> set xs \<Longrightarrow> \<exists>s'. f s x = Some s' \<and> I s'"
  shows "\<exists>s'. forEach f s xs = Some s' \<and> I s'"
  using assms
proof (induction xs arbitrary: s)
  case Nil
  then show ?case by simp
next
  case (Cons x xs)
  obtain s1 where s1: "f s x = Some s1" "I s1" using Cons.prems by (meson list.set_intros(1))
  have "\<exists>s'. forEach f s1 xs = Some s' \<and> I s'"
    using Cons.IH[OF s1(2)] Cons.prems(2) by (meson list.set_intros(2))
  then show ?case using s1 by simp
qed

lemma forEach_invariant:
  assumes "forEach f s xs = Some s'" and "I s"
    and "\<And>s x s'. I s \<Longrightarrow> x \<in> set xs \<Longrightarrow> f s x = Some s' \<Longrightarrow> I s'"
  shows "I s'"
  using assms
proof (induction xs arbitrary: s)
  case Nil
  then show ?case by simp
next
  case (Cons x xs)
  from Cons.prems(1) obtain s1 where s1: "f s x = Some s1" "forEach f s1 xs = Some s'"
    by (auto split: option.splits)
  have "I s1" using Cons.prems(2,3) s1(1) by (meson list.set_intros(1))
  then show ?case using Cons.IH[OF s1(2)] Cons.prems(3) by (meson list.set_intros(2))
qed

lemma processedFiles_indexSchema [simp]:
  "processedFiles (indexSchema schemaRoot tns c) = processedFiles c"
  by (simp add: indexSchema_def)

lemma unprocessed_mono:
  "processedFiles c \<subseteq> processedFiles c' \<Longrightarrow> unprocessed h c' \<le> unprocessed h c"
  unfolding unprocessed_def by (intro card_mono) auto

lemma unprocessed_insert:
  assumes "p \<in> set (map fst (files h))" "p \<notin> processedFiles c"
  shows "unprocessed h (c\<lparr>processedFiles := insert p (processedFiles c)\<rparr>) < unprocessed h c"
  unfolding unprocessed_def using assms by (intro psubset_card_mono) auto

lemma loadSchemaBody_skip:
  assumes "resolve h (basePath c) filePath \<in> processedFiles c
           \<or> resolve h (basePath c) filePath \<notin> set (map fst (files h))
           \<or> find (named ''schema'') (keys (lookup (files h) (resolve h (basePath c) filePath))) = None"
  shows "loadSchemaBody load h c filePath = Some c"
  using assms unfolding loadSchemaBody_def Let_def by (auto simp del: set_map)

lemma loadSchemaBody_load:
  assumes "resolve h (basePath c) filePath \<notin> processedFiles c"
    and "resolve h (basePath c) filePath \<in> set (map fst (files h))"
    and "find (named ''schema'') (keys (lookup (files h) (resolve h (basePath c) filePath)))
           = Some schemaKey"
    and "schemaRoot = getp (lookup (files h) (resolve h (basePath c) filePath)) schemaKey"
  shows "loadSchemaBody load h c filePath =
     (case forEach (loadRef load h filePath)
             (c\<lparr>processedFiles := insert (resolve h (basePath c) filePath) (processedFiles c),
                schemas := objset (schemas c) (toStr (getp schemaRoot ''@_targetNamespace''))
                             schemaRoot\<rparr>)
             (ensureArray schemaRoot ''import'' @ ensureArray schemaRoot ''include'') of
        None \<Rightarrow> None
      | Some c3 \<Rightarrow> Some (indexSchema schemaRoot (getp schemaRoot ''@_targetNamespace'') c3))"
  using assms(1-3) unfolding assms(4) loadSchemaBody_def Let_def by (simp del: set_map)

lemma loadSchema_returns:
  "unprocessed h c < budget \<Longrightarrow>
     \<exists>c'. loadSchema h budget c filePath = Some c' \<and> processedFiles c \<subseteq> processedFiles c'"
proof (induction budget arbitrary: c filePath)
  case 0
  then show ?case by simp
next
  case (Suc budget)
  let ?full = "resolve h (basePath c) filePath"
  show ?case
  proof (cases "?full \<in> processedFiles c \<or> ?full \<notin> set (map fst (files h))")
    case True
    then show ?thesis by (auto simp: loadSchemaBody_def Let_def)
  next
    case False
    let ?json = "lookup (files h) ?full"
    show ?thesis
    proof (cases "find (named ''schema'') (keys ?json)")
      case None
      then show ?thesis using False by (simp add: loadSchemaBody_def Let_def)
    next
      case (Some schemaKey)
      let ?root = "getp ?json schemaKey"
      let ?c1 = "c\<lparr>processedFiles := insert ?full (processedFiles c)\<rparr>"
      let ?c2 = "?c1\<lparr>schemas := objset (schemas ?c1) (toStr (getp ?root ''@_targetNamespace'')) ?root\<rparr>"
      let ?refs = "ensureArray ?root ''import'' @ ensureArray ?root ''include''"
      let ?I = "\<lambda>s. unprocessed h s < budget \<and> processedFiles ?c2 \<subseteq> processedFiles s"
      have "unprocessed h ?c1 < unprocessed h c"
        using unprocessed_insert[of ?full h c] False by simp
      moreover have "unprocessed h ?c2 = unprocessed h ?c1" by (simp add: unprocessed_def)
      ultimately have I0: "?I ?c2" using Suc.prems by simp
      have step: "\<And>s x. ?I s \<Longrightarrow> x \<in> set ?refs \<Longrightarrow>
                    \<exists>s'. loadRef (loadSchema h budget) h filePath s x = Some s' \<and> ?I s'"
      proof -
        fix s x assume s: "?I s"
        show "\<exists>s'. loadRef (loadSchema h budget) h filePath s x = Some s' \<and> ?I s'"
        proof (cases "truthy (getp x ''@_schemaLocation'')")
          case True
          obtain s' where s': "loadSchema h budget s
                 (join h (dirname h filePath) (toStr (getp x ''@_schemaLocation''))) = Some s'"
              "processedFiles s \<subseteq> processedFiles s'"
            using Suc.IH[of s] s by blast
          have "unprocessed h s' \<le> unprocessed h s" using unprocessed_mono[OF s'(2)] .
          then have "?I s'" using s s'(2) by auto
          then show ?thesis using True s'(1) by (simp add: loadRef_def Let_def)
        next
          case False
          then show ?thesis using s by (simp add: loadRef_def Let_def)
        qed
      qed
      have "\<exists>s'. forEach (loadRef (loadSchema h budget) h filePath) ?c2 ?refs = Some s' \<and> ?I s'"
        by (rule forEach_total[where I = ?I, OF I0]) (rule step)
      then obtain c3 where c3: "forEach (loadRef (loadSchema h budget) h filePath) ?c2 ?refs = Some c3"
          and I3: "unprocessed h c3 < budget" "processedFiles ?c2 \<subseteq> processedFiles c3"
        by blast
      have "loadSchema h (Suc budget) c filePath
              = Some (indexSchema ?root (getp ?root ''@_targetNamespace'') c3)"
        using False Some c3 by (simp add: loadSchemaBody_def Let_def)
      moreover have "processedFiles c \<subseteq> processedFiles c3" using I3(2) by auto
      ultimately show ?thesis by simp
    qed
  qed
qed

lemma unprocessed_le_length: "unprocessed h c \<le> length (files h)"
proof -
  have "unprocessed h c \<le> card (set (map fst (files h)))"
    unfolding unprocessed_def by (intro card_mono) auto
  also have "\<dots> \<le> length (map fst (files h))" by (rule card_length)
  finally show ?thesis by simp
qed

text \<open>
  C8. A call of \<open>loadSchema\<close> whose resolved path is already in the processed-files set
  returns at once with the whole context unchanged; and for every file system and every
  starting context, a budget of one more nested call than there are files is enough for
  \<open>loadSchema\<close> to return, whatever the import and include references are (cycles
  included). By \<open>loadSchema_budget_mono\<close> a larger budget gives the same result.
\<close>

theorem loadSchema_idempotent_and_terminating:
  "(resolve h (basePath c) filePath \<in> processedFiles c
      \<longrightarrow> loadSchema h (Suc budget) c filePath = Some c)
   \<and> (\<exists>c'. loadSchema h (Suc (length (files h))) c filePath = Some c')"
proof
  show "resolve h (basePath c) filePath \<in> processedFiles c
      \<longrightarrow> loadSchema h (Suc budget) c filePath = Some c"
    by (simp add: loadSchemaBody_def Let_def)
  have "unprocessed h c < Suc (length (files h))"
    using unprocessed_le_length[of h c] by simp
  from loadSchema_returns[OF this]
  show "\<exists>c'. loadSchema h (Suc (length (files h))) c filePath = Some c'" by blast
qed

lemma forEach_mono:
  assumes "forEach f s xs = Some s'" and "\<And>s x s'. f s x = Some s' \<Longrightarrow> f' s x = Some s'"
  shows "forEach f' s xs = Some s'"
  using assms(1)
proof (induction xs arbitrary: s)
  case Nil
  then show ?case by simp
next
  case (Cons x xs)
  from Cons.prems obtain s1 where s1: "f s x = Some s1" "forEach f s1 xs = Some s'"
    by (auto split: option.splits)
  show ?case using assms(2)[OF s1(1)] Cons.IH[OF s1(2)] by simp
qed

lemma loadSchemaBody_mono:
  assumes load: "\<And>c p c'. load c p = Some c' \<Longrightarrow> load' c p = Some c'"
    and body: "loadSchemaBody load h c filePath = Some c'"
  shows "loadSchemaBody load' h c filePath = Some c'"
proof -
  let ?full = "resolve h (basePath c) filePath"
  let ?json = "lookup (files h) ?full"
  show ?thesis
  proof (cases "?full \<in> processedFiles c \<or> ?full \<notin> set (map fst (files h))
                \<or> find (named ''schema'') (keys ?json) = None")
    case True
    show ?thesis using body unfolding loadSchemaBody_skip[OF True] .
  next
    case False
    then obtain schemaKey where sk: "find (named ''schema'') (keys ?json) = Some schemaKey"
      by auto
    let ?root = "getp ?json schemaKey"
    have np: "?full \<notin> processedFiles c" and ex: "?full \<in> set (map fst (files h))"
      using False by auto
    note unfold = loadSchemaBody_load[OF np ex sk refl]
    have ref: "\<And>s x s'. loadRef load h filePath s x = Some s'
               \<Longrightarrow> loadRef load' h filePath s x = Some s'"
      using load unfolding loadRef_def Let_def by (auto split: if_splits)
    show ?thesis
      using body forEach_mono[of "loadRef load h filePath" _ _ _ "loadRef load' h filePath", OF _ ref]
      unfolding unfold by (auto split: option.splits)
  qed
qed

lemma loadSchema_budget_mono:
  "loadSchema h budget c filePath = Some c' \<Longrightarrow> loadSchema h (Suc budget) c filePath = Some c'"
proof (induction budget arbitrary: c filePath c')
  case 0
  then show ?case by simp
next
  case (Suc budget)
  have "loadSchemaBody (loadSchema h budget) h c filePath = Some c'"
    using Suc.prems by simp
  then have "loadSchemaBody (loadSchema h (Suc budget)) h c filePath = Some c'"
    by (rule loadSchemaBody_mono[rotated]) (rule Suc.IH)
  then show ?case by (simp only: loadSchema.simps)
qed

theorem loadSchema_idempotent_and_terminating_witness:
  "resolve cycleHost (basePath processedA) ''a.xsd'' \<in> processedFiles processedA
   \<and> loadSchema cycleHost (Suc 0) processedA ''a.xsd'' = Some processedA
   \<and> (\<exists>c'. loadSchema cycleHost (Suc (length (files cycleHost))) emptyContext ''a.xsd'' = Some c')"
proof -
  have h: "resolve cycleHost (basePath processedA) ''a.xsd'' \<in> processedFiles processedA"
    by (simp add: cycleHost_def processedA_def)
  show ?thesis
    using h loadSchema_idempotent_and_terminating[of cycleHost processedA "''a.xsd''" 0]
      loadSchema_idempotent_and_terminating[of cycleHost emptyContext "''a.xsd''" 0]
    by blast
qed

lemma cycle_example:
  "map_option processedFiles (loadSchema cycleHost 3 emptyContext ''a.xsd'') = Some {''a.xsd'', ''b.xsd''}
   \<and> map_option (\<lambda>c. map fst (elements c)) (loadSchema cycleHost 3 emptyContext ''a.xsd'')
       = Some [''x'', ''{urn:a}x'']"
  by code_simp

lemma keepsEntry_refl: "keepsEntry k t t"
  by (simp add: keepsEntry_def)

lemma keepsEntry_trans: "keepsEntry k a b \<Longrightarrow> keepsEntry k b c \<Longrightarrow> keepsEntry k a c"
  by (auto simp: keepsEntry_def)

lemma keepsBare_refl: "keepsBare k c c"
  by (simp add: keepsBare_def keepsEntry_refl)

lemma keepsBare_trans: "keepsBare k a b \<Longrightarrow> keepsBare k b c \<Longrightarrow> keepsBare k a c"
  unfolding keepsBare_def using keepsEntry_trans by blast

lemma lookup_in_set: "k \<in> set (map fst kvs) \<Longrightarrow> (k, lookup kvs k) \<in> set kvs"
proof (induction kvs)
  case Nil
  then show ?case by simp
next
  case (Cons kv kvs)
  obtain k' v' where kv: "kv = (k', v')" by (cases kv)
  show ?case
  proof (cases "k' = k")
    case True
    then show ?thesis using kv by simp
  next
    case False
    then have "k \<in> set (map fst kvs)" using Cons.prems kv by simp
    then show ?thesis using Cons.IH False kv by simp
  qed
qed

lemma indexEntity_keeps:
  assumes "truthy tns" and "\<not> startsWith k ''{''"
  shows "keepsEntry k table (indexEntity schemaRoot tns table e)"
proof -
  let ?key = "''{'' @ toStr tns @ ''}'' @ toStr (getp e ''@_name'')"
  have ne: "k \<noteq> ?key" using assms(2) by (auto simp: startsWith_def)
  have 1: "lookup (objset table ?key v) k = lookup table k" for v
    using ne by (simp add: lookup_objset)
  show ?thesis
    unfolding keepsEntry_def indexEntity_def Let_def
    using assms(1) 1 by (auto simp: lookup_objset)
qed

lemma indexEntity_fold_keeps:
  assumes "truthy tns" and "\<not> startsWith k ''{''"
  shows "keepsEntry k table (foldl (indexEntity schemaRoot tns) table es)"
proof (induction es arbitrary: table)
  case Nil
  then show ?case by (simp add: keepsEntry_refl)
next
  case (Cons e es)
  show ?case
    using keepsEntry_trans[OF indexEntity_keeps[OF assms, of table schemaRoot e] Cons.IH]
    by simp
qed

lemma indexSchema_keeps:
  assumes "truthy tns" and "\<not> startsWith k ''{''"
  shows "keepsBare k c (indexSchema schemaRoot tns c)"
  unfolding keepsBare_def indexSchema_def
  using indexEntity_fold_keeps[OF assms]
    keepsEntry_trans[OF indexEntity_fold_keeps[OF assms] indexEntity_fold_keeps[OF assms]]
  by simp

lemma loadSchema_keeps:
  assumes ns: "allNamespaced h" and k: "\<not> startsWith k ''{''"
  shows "loadSchema h budget c filePath = Some c' \<Longrightarrow> keepsBare k c c'"
proof (induction budget arbitrary: c filePath c')
  case 0
  then show ?case by simp
next
  case (Suc budget)
  let ?full = "resolve h (basePath c) filePath"
  let ?json = "lookup (files h) ?full"
  have body: "loadSchemaBody (loadSchema h budget) h c filePath = Some c'"
    using Suc.prems by simp
  show ?case
  proof (cases "?full \<in> processedFiles c \<or> ?full \<notin> set (map fst (files h))
                \<or> find (named ''schema'') (keys ?json) = None")
    case True
    have "c' = c" using body unfolding loadSchemaBody_skip[OF True] by simp
    then show ?thesis by (simp add: keepsBare_refl)
  next
    case False
    then obtain schemaKey where sk: "find (named ''schema'') (keys ?json) = Some schemaKey"
      by auto
    let ?root = "getp ?json schemaKey"
    let ?tns = "getp ?root ''@_targetNamespace''"
    let ?c2 = "c\<lparr>processedFiles := insert ?full (processedFiles c),
                 schemas := objset (schemas c) (toStr ?tns) ?root\<rparr>"
    let ?refs = "ensureArray ?root ''import'' @ ensureArray ?root ''include''"
    have np: "?full \<notin> processedFiles c" and ex: "?full \<in> set (map fst (files h))"
      using False by auto
    have "(?full, ?json) \<in> set (files h)" using lookup_in_set[OF ex] .
    then have tns: "truthy ?tns" using ns sk unfolding allNamespaced_def list_all_iff by fastforce
    obtain c3 where c3: "forEach (loadRef (loadSchema h budget) h filePath) ?c2 ?refs = Some c3"
      and c': "c' = indexSchema ?root ?tns c3"
      using body unfolding loadSchemaBody_load[OF np ex sk refl] by (auto split: option.splits)
    have step: "\<And>s x s'. keepsBare k c s \<Longrightarrow> x \<in> set ?refs \<Longrightarrow>
                  loadRef (loadSchema h budget) h filePath s x = Some s' \<Longrightarrow> keepsBare k c s'"
    proof -
      fix s x s'
      assume s: "keepsBare k c s" and l: "loadRef (loadSchema h budget) h filePath s x = Some s'"
      have "keepsBare k s s'"
        using l Suc.IH unfolding loadRef_def Let_def
        by (auto split: if_splits simp: keepsBare_refl)
      then show "keepsBare k c s'" using keepsBare_trans[OF s] by blast
    qed
    have "keepsBare k c ?c2" by (simp add: keepsBare_def keepsEntry_refl)
    then have "keepsBare k c c3"
      by (rule forEach_invariant[where I = "keepsBare k c", OF c3]) (rule step)
    then show ?thesis
      unfolding c' using keepsBare_trans indexSchema_keeps[OF tns k] by blast
  qed
qed

lemma indexEntity_qualified:
  assumes "truthy (getp e ''@_name'')"
  shows "lookup (indexEntity schemaRoot tns table e)
           (if truthy tns then ''{'' @ toStr tns @ ''}'' @ toStr (getp e ''@_name'')
            else toStr (getp e ''@_name''))
         = JObj (objset (spread e) ''_schema'' schemaRoot)"
  unfolding indexEntity_def Let_def using assms by (auto simp: lookup_objset)

lemma load_a: "loadSchema namespacedHost 1 emptyContext ''a.xsd'' = Some afterA"
  by code_simp

lemma load_b: "loadSchema namespacedHost 1 afterA ''b.xsd'' = Some afterAB"
  by code_simp




section \<open>Element keys, the root key and unresolved references\<close>

lemma resolveElement_name:
  "resolveElement g el = Some (elementDef, elName) \<Longrightarrow> elName = getp elementDef ''@_name''"
  unfolding resolveElement_def Let_def by (auto split: if_splits)

lemma elementKey_forms:
  "elementKey g elementDef elName = elName
   \<or> (\<exists>pfx. elementKey g elementDef elName = pfx @ '':'' @ elName)"
  unfolding elementKey_def Let_def by auto

lemma processGroupElement_key:
  assumes "processGroupElement self g parentDef currentPath result el = Some result'"
  shows "result' = result
       \<or> (\<exists>elementDef content.
             resolveElement g el = Some (elementDef, getp elementDef ''@_name'')
             \<and> result' = objset result
                   (elementKey g (withParentSchema parentDef elementDef)
                      (toStr (getp elementDef ''@_name''))) content)"
proof (cases "resolveElement g el")
  case None
  then show ?thesis using assms by (simp add: processGroupElement_def)
next
  case (Some r)
  obtain elementDef elName where r: "r = (elementDef, elName)" by (cases r)
  have nm: "elName = getp elementDef ''@_name''"
    using resolveElement_name Some r by simp
  show ?thesis
    using assms Some r nm unfolding processGroupElement_def Let_def
    by (auto split: if_splits option.splits)
qed

lemma generate_root_key:
  assumes "generate g depth rootElementName startPath typeOverride = Some (Inr (JObj kvs))"
  shows "\<exists>content. kvs = [(elementKey g (resolveRoot g rootElementName) rootElementName, content)]"
  using assms unfolding generate_def Let_def
  by (auto split: if_splits option.splits)

lemma generate_error_iff:
  "generate g depth rootElementName startPath typeOverride = Some (Inl e)
     \<longleftrightarrow> \<not> truthy (resolveRoot g rootElementName) \<and> e = RootElementNotFound rootElementName"
  unfolding generate_def Let_def
  by (auto split: if_splits option.splits)

lemma forEach_skip:
  assumes "\<And>s. f s x = Some s"
  shows "forEach f s (xs @ x # ys) = forEach f s (xs @ ys)"
  by (induction xs arbitrary: s) (auto simp: assms split: option.splits)

lemma processGroupElement_unresolved:
  "resolveElement g el = None \<Longrightarrow> processGroupElement self g parentDef currentPath result el = Some result"
  by (simp add: processGroupElement_def)

section \<open>The array loop\<close>

lemma arrayLoop_unfold:
  "arrayLoop self g el elementDef currentPath elName idx items =
     (if idx = 0 \<and> \<not> hasConfigPrefix g (indexedPath currentPath elName idx)
         \<and> hasConfigPrefix g (currentPath @ ''/'' @ elName)
      then (case self (ProcessElement elementDef (currentPath @ ''/'' @ elName)) of
              None \<Rightarrow> None
            | Some childContent \<Rightarrow>
                if truthy childContent then Some (items @ [childContent]) else Some items)
      else if \<not> hasConfigPrefix g (indexedPath currentPath elName idx) then Some items
      else (case self (ProcessElement elementDef (indexedPath currentPath elName idx)) of
              None \<Rightarrow> None
            | Some childContent \<Rightarrow>
                if truthy childContent
                then arrayLoop self g el elementDef currentPath elName (Suc idx)
                       (items @ [childContent])
                else Some items))"
  by (subst arrayLoop.simps) (auto simp: indexedPath_def Let_def split: option.splits)

lemma arrayLoop_falsy:
  assumes "hasConfigPrefix g (indexedPath currentPath elName idx)"
    and "self (ProcessElement elementDef (indexedPath currentPath elName idx)) = Some v"
    and "\<not> truthy v"
  shows "arrayLoop self g el elementDef currentPath elName idx items = Some items"
  by (subst arrayLoop_unfold) (simp add: assms)

lemma arrayLoop_indexed:
  assumes "arrayLoop self g el elementDef currentPath elName idx items = Some res"
    and "idx = 0 \<longrightarrow> hasConfigPrefix g (indexedPath currentPath elName 0)
                    \<or> \<not> hasConfigPrefix g (currentPath @ ''/'' @ elName)"
  shows "\<exists>new. res = items @ new
           \<and> (\<forall>j<length new.
                  hasConfigPrefix g (indexedPath currentPath elName (idx + j))
                  \<and> self (ProcessElement elementDef (indexedPath currentPath elName (idx + j)))
                      = Some (new ! j)
                  \<and> truthy (new ! j))
           \<and> (\<not> hasConfigPrefix g (indexedPath currentPath elName (idx + length new))
                \<or> (\<exists>c. self (ProcessElement elementDef
                               (indexedPath currentPath elName (idx + length new))) = Some c
                         \<and> \<not> truthy c))"
  using assms
proof (induction self g el elementDef currentPath elName idx items arbitrary: res
        rule: arrayLoop.induct)
  case (1 self g el elementDef currentPath elName idx items)
  let ?ip = "indexedPath currentPath elName"
  have notSingle: "\<not> (idx = 0 \<and> \<not> hasConfigPrefix g (?ip idx)
                      \<and> hasConfigPrefix g (currentPath @ ''/'' @ elName))"
    using "1.prems"(2) by auto
  show ?case
  proof (cases "hasConfigPrefix g (?ip idx)")
    case False
    then have "res = items" using "1.prems"(1) notSingle
      by (subst (asm) arrayLoop_unfold) auto
    then show ?thesis using False by (intro exI[of _ "[]"]) simp
  next
    case True
    then obtain c where c: "self (ProcessElement elementDef (?ip idx)) = Some c"
      using "1.prems"(1) notSingle
      by (subst (asm) arrayLoop_unfold) (auto split: option.splits)
    show ?thesis
    proof (cases "truthy c")
      case False
      then have "res = items" using "1.prems"(1) True c
        by (subst (asm) arrayLoop_unfold) auto
      then show ?thesis using True c False by (intro exI[of _ "[]"]) auto
    next
      case truthy: True
      have rec: "arrayLoop self g el elementDef currentPath elName (Suc idx) (items @ [c]) = Some res"
        using "1.prems"(1) True c truthy
        by (subst (asm) arrayLoop_unfold) auto
      have "\<exists>new. res = (items @ [c]) @ new
           \<and> (\<forall>j<length new.
                  hasConfigPrefix g (?ip (Suc idx + j))
                  \<and> self (ProcessElement elementDef (?ip (Suc idx + j))) = Some (new ! j)
                  \<and> truthy (new ! j))
           \<and> (\<not> hasConfigPrefix g (?ip (Suc idx + length new))
                \<or> (\<exists>c. self (ProcessElement elementDef (?ip (Suc idx + length new))) = Some c
                         \<and> \<not> truthy c))"
        using "1.IH"[OF refl refl refl refl, of c res] True notSingle c truthy rec
        by (simp add: indexedPath_def)
      then obtain new where new: "res = (items @ [c]) @ new"
        and all: "\<forall>j<length new.
                  hasConfigPrefix g (?ip (Suc idx + j))
                  \<and> self (ProcessElement elementDef (?ip (Suc idx + j))) = Some (new ! j)
                  \<and> truthy (new ! j)"
        and stop: "\<not> hasConfigPrefix g (?ip (Suc idx + length new))
                \<or> (\<exists>c. self (ProcessElement elementDef (?ip (Suc idx + length new))) = Some c
                         \<and> \<not> truthy c)"
        by blast
      have "\<forall>j<length (c # new).
                  hasConfigPrefix g (?ip (idx + j))
                  \<and> self (ProcessElement elementDef (?ip (idx + j))) = Some ((c # new) ! j)
                  \<and> truthy ((c # new) ! j)"
      proof (intro allI impI)
        fix j assume j: "j < length (c # new)"
        show "hasConfigPrefix g (?ip (idx + j))
                  \<and> self (ProcessElement elementDef (?ip (idx + j))) = Some ((c # new) ! j)
                  \<and> truthy ((c # new) ! j)"
        proof (cases j)
          case 0
          then show ?thesis using True c truthy by simp
        next
          case (Suc j')
          then show ?thesis using all j by simp
        qed
      qed
      then show ?thesis using new stop by (intro exI[of _ "c # new"]) simp
    qed
  qed
qed

lemma arrayLoop_singleton:
  assumes "arrayLoop self g el elementDef currentPath elName 0 [] = Some items"
    and "\<not> hasConfigPrefix g (indexedPath currentPath elName 0)"
    and "hasConfigPrefix g (currentPath @ ''/'' @ elName)"
  shows "length items \<le> 1
       \<and> (\<forall>c \<in> set items. self (ProcessElement elementDef (currentPath @ ''/'' @ elName)) = Some c
                            \<and> truthy c)"
  using assms by (subst (asm) arrayLoop_unfold) (auto split: option.splits if_splits)

lemma processGroupElement_array:
  assumes "resolveElement g el = Some (elementDef0, elName)" and "truthy elName"
    and "isArray el"
  shows "processGroupElement self g parentDef currentPath result el =
     (case arrayLoop self g el (withParentSchema parentDef elementDef0) currentPath (toStr elName) 0 [] of
        None \<Rightarrow> None
      | Some items \<Rightarrow>
          Some (if length items > 0
                then objset result (elementKey g (withParentSchema parentDef elementDef0) (toStr elName))
                       (JArr items)
                else result))"
  using assms by (simp add: processGroupElement_def Let_def)

text \<open>
  C4. The array loop started at index 0 gives a contiguous run: in indexed mode the items
  are exactly the contents found at \<open>path/name[0]\<close>, ..., \<open>path/name[n-1]\<close>, each with
  configuration under its path and truthy content, and the scan stops at the first index
  \<open>n\<close> that has no configuration or no truthy content; in singleton mode (no
  \<open>path/name[0]\<close>, but \<open>path/name\<close>) there is at most the one item. So when index 1 has
  no configuration, at most one item is emitted, whatever is configured at index 2. The
  element callback emits exactly these items, as one array, when there is at least one.
\<close>

theorem arrayLoop_contiguous:
  assumes "arrayLoop self g el elementDef currentPath elName 0 [] = Some items"
  shows "(hasConfigPrefix g (indexedPath currentPath elName 0)
            \<or> \<not> hasConfigPrefix g (currentPath @ ''/'' @ elName) \<longrightarrow>
          (\<forall>i<length items.
              hasConfigPrefix g (indexedPath currentPath elName i)
              \<and> self (ProcessElement elementDef (indexedPath currentPath elName i)) = Some (items ! i)
              \<and> truthy (items ! i))
          \<and> (\<not> hasConfigPrefix g (indexedPath currentPath elName (length items))
               \<or> (\<exists>c. self (ProcessElement elementDef
                              (indexedPath currentPath elName (length items))) = Some c
                        \<and> \<not> truthy c)))
       \<and> (\<not> hasConfigPrefix g (indexedPath currentPath elName 0)
            \<and> hasConfigPrefix g (currentPath @ ''/'' @ elName) \<longrightarrow>
          length items \<le> 1
          \<and> (\<forall>c \<in> set items.
                self (ProcessElement elementDef (currentPath @ ''/'' @ elName)) = Some c \<and> truthy c))
       \<and> (\<not> hasConfigPrefix g (indexedPath currentPath elName 1) \<longrightarrow> length items \<le> 1)
       \<and> (resolveElement g el = Some (elementDef0, name) \<and> truthy name \<and> isArray el
            \<and> elementDef = withParentSchema parentDef elementDef0 \<and> elName = toStr name \<longrightarrow>
          processGroupElement self g parentDef currentPath result el
            = Some (if length items > 0
                    then objset result (elementKey g elementDef elName) (JArr items)
                    else result))"
proof -
  have emitted: "resolveElement g el = Some (elementDef0, name) \<and> truthy name \<and> isArray el
            \<and> elementDef = withParentSchema parentDef elementDef0 \<and> elName = toStr name \<longrightarrow>
          processGroupElement self g parentDef currentPath result el
            = Some (if length items > 0
                    then objset result (elementKey g elementDef elName) (JArr items)
                    else result)"
    using assms processGroupElement_array[of g el elementDef0 name self parentDef currentPath result]
    by auto
  have scan: "(hasConfigPrefix g (indexedPath currentPath elName 0)
            \<or> \<not> hasConfigPrefix g (currentPath @ ''/'' @ elName) \<longrightarrow>
          (\<forall>i<length items.
              hasConfigPrefix g (indexedPath currentPath elName i)
              \<and> self (ProcessElement elementDef (indexedPath currentPath elName i)) = Some (items ! i)
              \<and> truthy (items ! i))
          \<and> (\<not> hasConfigPrefix g (indexedPath currentPath elName (length items))
               \<or> (\<exists>c. self (ProcessElement elementDef
                              (indexedPath currentPath elName (length items))) = Some c
                        \<and> \<not> truthy c)))
       \<and> (\<not> hasConfigPrefix g (indexedPath currentPath elName 0)
            \<and> hasConfigPrefix g (currentPath @ ''/'' @ elName) \<longrightarrow>
          length items \<le> 1
          \<and> (\<forall>c \<in> set items.
                self (ProcessElement elementDef (currentPath @ ''/'' @ elName)) = Some c \<and> truthy c))
       \<and> (\<not> hasConfigPrefix g (indexedPath currentPath elName 1) \<longrightarrow> length items \<le> 1)"
  proof (cases "hasConfigPrefix g (indexedPath currentPath elName 0)
            \<or> \<not> hasConfigPrefix g (currentPath @ ''/'' @ elName)")
  case True
  from arrayLoop_indexed[OF assms] True
  have ix: "\<forall>i<length items.
              hasConfigPrefix g (indexedPath currentPath elName i)
              \<and> self (ProcessElement elementDef (indexedPath currentPath elName i)) = Some (items ! i)
              \<and> truthy (items ! i)"
    and stop: "\<not> hasConfigPrefix g (indexedPath currentPath elName (length items))
               \<or> (\<exists>c. self (ProcessElement elementDef
                              (indexedPath currentPath elName (length items))) = Some c
                        \<and> \<not> truthy c)"
    by auto
  have "\<not> hasConfigPrefix g (indexedPath currentPath elName 1) \<longrightarrow> length items \<le> 1"
  proof (rule impI, rule ccontr)
    assume n1: "\<not> hasConfigPrefix g (indexedPath currentPath elName 1)" and "\<not> length items \<le> 1"
    then have "1 < length items" by simp
    then show False using ix n1 by blast
  qed
  then show ?thesis using True ix stop by blast
next
  case False
  then have f: "\<not> hasConfigPrefix g (indexedPath currentPath elName 0)"
      "hasConfigPrefix g (currentPath @ ''/'' @ elName)" by auto
    show ?thesis using arrayLoop_singleton[OF assms f] f by blast
  qed
  show ?thesis using scan emitted by blast
qed

lemma processGroupElement_single:
  assumes "resolveElement g el = Some (elementDef0, elName)" and "truthy elName"
    and "\<not> isArray el"
  shows "processGroupElement self g parentDef currentPath result el =
     (case self (ProcessElement (withParentSchema parentDef elementDef0)
                   (currentPath @ ''/'' @ toStr elName)) of
        None \<Rightarrow> None
      | Some childContent \<Rightarrow>
          Some (if childContent \<noteq> JNull
                then objset result (elementKey g (withParentSchema parentDef elementDef0) (toStr elName))
                       childContent
                else result))"
  using assms by (simp add: processGroupElement_def Let_def)

text \<open>
  C9. For a configured falsy scalar (the number 0, \<open>false\<close> or the empty string) as the
  processed content of an element: in array mode the item is discarded and the index scan
  ends with the items pushed so far, so that an array whose first item is such a value is
  not emitted at all; at a singleton position the same value is emitted under the
  element's key.
\<close>

theorem falsy_scalar_array_versus_singleton:
  assumes "v \<in> {JNum 0, JBool False, JStr []}"
    and "resolveElement g el = Some (elementDef0, elName)" and "truthy elName"
    and "elementDef = withParentSchema parentDef elementDef0"
  shows "(hasConfigPrefix g (indexedPath currentPath (toStr elName) idx)
          \<and> self (ProcessElement elementDef (indexedPath currentPath (toStr elName) idx)) = Some v
          \<longrightarrow> arrayLoop self g el elementDef currentPath (toStr elName) idx items = Some items)
       \<and> (isArray el
          \<and> hasConfigPrefix g (indexedPath currentPath (toStr elName) 0)
          \<and> self (ProcessElement elementDef (indexedPath currentPath (toStr elName) 0)) = Some v
          \<longrightarrow> processGroupElement self g parentDef currentPath result el = Some result)
       \<and> (\<not> isArray el
          \<and> self (ProcessElement elementDef (currentPath @ ''/'' @ toStr elName)) = Some v
          \<longrightarrow> processGroupElement self g parentDef currentPath result el
                = Some (objset result (elementKey g elementDef (toStr elName)) v))"
proof -
  have falsy: "\<not> truthy v" and nn: "v \<noteq> JNull" using assms(1) by auto
  have a: "hasConfigPrefix g (indexedPath currentPath (toStr elName) idx)
          \<and> self (ProcessElement elementDef (indexedPath currentPath (toStr elName) idx)) = Some v
          \<longrightarrow> arrayLoop self g el elementDef currentPath (toStr elName) idx items = Some items"
    for idx items
    using arrayLoop_falsy[of g currentPath "toStr elName" idx self elementDef v el items] falsy
    by blast
  have b: "isArray el
          \<and> hasConfigPrefix g (indexedPath currentPath (toStr elName) 0)
          \<and> self (ProcessElement elementDef (indexedPath currentPath (toStr elName) 0)) = Some v
          \<longrightarrow> processGroupElement self g parentDef currentPath result el = Some result"
    using a[of 0 "[]"] processGroupElement_array[OF assms(2,3), of self parentDef currentPath result]
    unfolding assms(4) by auto
  have c: "\<not> isArray el
          \<and> self (ProcessElement elementDef (currentPath @ ''/'' @ toStr elName)) = Some v
          \<longrightarrow> processGroupElement self g parentDef currentPath result el
                = Some (objset result (elementKey g elementDef (toStr elName)) v)"
    using nn processGroupElement_single[OF assms(2,3), of self parentDef currentPath result]
    unfolding assms(4) by auto
  show ?thesis using a b c by blast
qed

section \<open>Key order of merged results\<close>

lemma keys_objset_list:
  "map fst (objset r k v) = (if k \<in> set (map fst r) then map fst r else map fst r @ [k])"
proof (induction r)
  case Nil
  then show ?case by simp
next
  case (Cons a r)
  obtain k' v' where a: "a = (k', v')" by (cases a)
  show ?case
  proof (cases "k' = k")
    case True
    then show ?thesis using a by simp
  next
    case False
    then show ?thesis using a Cons.IH by auto
  qed
qed

lemma keys_assign_fold:
  "\<exists>new. map fst (foldl (\<lambda>t (k, v). objset t k v) t kvs) = map fst t @ new
         \<and> set new = set (map fst kvs) - set (map fst t)"
proof (induction kvs arbitrary: t)
  case Nil
  then show ?case by simp
next
  case (Cons kv kvs)
  obtain k v where kv: "kv = (k, v)" by (cases kv)
  let ?t1 = "objset t k v"
  obtain new where new: "map fst (foldl (\<lambda>t (k, v). objset t k v) ?t1 kvs) = map fst ?t1 @ new"
    and sn: "set new = set (map fst kvs) - set (map fst ?t1)"
    using Cons.IH[of ?t1] by blast
  show ?case
  proof (cases "k \<in> set (map fst t)")
    case True
    then have "map fst ?t1 = map fst t" by (simp only: keys_objset_list if_True)
    then show ?thesis using new sn kv True by (intro exI[of _ new]) auto
  next
    case False
    then have "map fst ?t1 = map fst t @ [k]" by (simp only: keys_objset_list if_False)
    then show ?thesis using new sn kv False by (intro exI[of _ "k # new"]) auto
  qed
qed

lemma keys_assign:
  "\<exists>new. map fst (assign t s) = map fst t @ new \<and> set new = set (keys s) - set (map fst t)"
proof (cases s)
  case (JObj kvs)
  then show ?thesis using keys_assign_fold[of t kvs] by (simp add: assign_def)
qed (simp_all add: assign_def)

lemma precedes_append:
  assumes "a \<in> set xs" and "b \<in> set ys"
  shows "precedes a b (xs @ ys)"
proof -
  obtain us vs where xs: "xs = us @ a # vs" using assms(1) by (meson split_list)
  obtain vs' ws where ys: "ys = vs' @ b # ws" using assms(2) by (meson split_list)
  have "xs @ ys = us @ a # (vs @ vs') @ b # ws" using xs ys by simp
  then show ?thesis unfolding precedes_def by blast
qed

lemma attrKey_marked: "startsWith (attrKey a) ''@_''"
  by (simp add: attrKey_def startsWith_def)

lemma processAttributes_keys_marked:
  assumes "\<forall>k \<in> set (map fst r). startsWith k ''@_''"
  shows "\<forall>k \<in> set (map fst (foldl (processAttribute g path) r attrs)). startsWith k ''@_''"
  using assms
proof (induction attrs arbitrary: r)
  case Nil
  then show ?case by simp
next
  case (Cons a attrs)
  have "\<forall>k \<in> set (map fst (processAttribute g path r a)). startsWith k ''@_''"
    unfolding processAttribute_alt using Cons.prems attrKey_marked[of a]
    by (auto simp: keys_objset simp del: set_map)
  from Cons.IH[OF this] show ?case by simp
qed

lemma findType_truthy_name: "truthy (findType c name s) \<Longrightarrow> truthy name"
  unfolding findType_def by (auto split: if_splits)

lemma processComplexType_extension:
  assumes "find (named ''complexContent'') (keys typeDef) = Some contentKey"
    and "find (named ''extension'') (keys (getp typeDef contentKey)) = Some extensionKey"
    and "extension = getp (getp typeDef contentKey) extensionKey"
    and "baseDef = findType (ctx g) (getp extension ''@_base'') (getp typeDef ''_schema'')"
    and "truthy baseDef"
    and "self (ProcessComplexType baseDef currentPath) = Some baseContent"
    and "self (ProcessGroup (JObj (objset (spread extension) ''_schema'' (getp typeDef ''_schema'')))
                 currentPath) = Some extInfo"
  shows "processComplexType self g typeDef currentPath =
           Some (nonEmptyOrNull
                   (assign (assign (processAttributes g extension currentPath []) baseContent)
                      extInfo))"
proof -
  have tb: "truthy (getp extension ''@_base'')"
    using assms(4,5) findType_truthy_name by blast
  show ?thesis
    using assms(1,2,5,6,7) tb unfolding assms(3,4) processComplexType_def Let_def
    by simp
qed

section \<open>Paths without configuration\<close>

lemma hasConfigPrefix_append: "hasConfigPrefix g (p @ s) \<Longrightarrow> hasConfigPrefix g p"
  unfolding hasConfigPrefix_def startsWith_def list_ex_iff
  by (meson append_prefixD)

lemma lookup_absent: "k \<notin> set (map fst kvs) \<Longrightarrow> lookup kvs k = JUndef"
  by (induction kvs) auto

lemma getValue_unconfigured:
  assumes "\<not> hasConfigPrefix g p"
  shows "getValueFromConfig g (p @ s) = JUndef"
proof -
  have "\<not> hasConfigPrefix g (p @ s)" using assms hasConfigPrefix_append by blast
  then have "p @ s \<notin> set (map fst (config g))"
    unfolding hasConfigPrefix_def startsWith_def list_ex_iff by auto
  then show ?thesis unfolding getValueFromConfig_def by (rule lookup_absent)
qed

lemma noConfig_simps [simp]:
  "ctx (noConfig g) = ctx g" "nsMap (noConfig g) = nsMap g"
  "substitutions (noConfig g) = substitutions g" "config (noConfig g) = []"
  by (simp_all add: noConfig_def)

lemma noConfig_unconfigured [simp]: "\<not> hasConfigPrefix (noConfig g) p"
  by (simp add: hasConfigPrefix_def)

lemma leafValue_unconfigured:
  assumes "\<not> hasConfigPrefix g p"
  shows "leafValue g p = JNull"
  using getValue_unconfigured[OF assms, of "[]"] by (simp add: leafValue_def)

lemma processAttribute_unconfigured:
  assumes "\<not> hasConfigPrefix g p"
  shows "processAttribute g p r a = processAttribute (noConfig g) p r a"
proof -
  have "getValueFromConfig g (p @ ''/@'' @ toStr (getp a ''@_name'')) = JUndef"
    using getValue_unconfigured[OF assms] by blast
  moreover have "getValueFromConfig (noConfig g) (p @ ''/@'' @ toStr (getp a ''@_name'')) = JUndef"
    using getValue_unconfigured[of "noConfig g" p] by simp
  ultimately show ?thesis unfolding processAttribute_def Let_def by simp
qed

lemma processAttributes_unconfigured:
  assumes "\<not> hasConfigPrefix g p"
  shows "processAttributes g d p r = processAttributes (noConfig g) d p r"
proof -
  have "foldl (processAttribute g p) r xs = foldl (processAttribute (noConfig g) p) r xs" for xs
    by (induction xs arbitrary: r) (simp_all add: processAttribute_unconfigured[OF assms])
  then show ?thesis by (simp add: processAttributes_def)
qed

lemma arrayLoop_unconfigured:
  assumes "\<not> hasConfigPrefix g p"
  shows "arrayLoop self g el elementDef p elName 0 [] = Some []"
proof -
  have 1: "\<not> hasConfigPrefix g (p @ ''/'' @ elName @ ''['' @ dec 0 @ '']'')"
    using assms hasConfigPrefix_append by blast
  have 2: "\<not> hasConfigPrefix g (p @ ''/'' @ elName)"
    using assms hasConfigPrefix_append by blast
  show ?thesis using 1 2 by (subst arrayLoop.simps) (simp add: Let_def)
qed

lemma resolveElement_noConfig [simp]: "resolveElement (noConfig g) el = resolveElement g el"
  by (simp add: resolveElement_def Let_def)

lemma elementKey_noConfig [simp]: "elementKey (noConfig g) d n = elementKey g d n"
  by (simp add: elementKey_def getPrefix_def Let_def)

lemma forEach_cong:
  assumes "\<And>s x. x \<in> set xs \<Longrightarrow> f s x = f' s x"
  shows "forEach f s xs = forEach f' s xs"
  using assms by (induction xs arbitrary: s) (auto split: option.splits)

lemma processGroupElement_unconfigured:
  assumes P: "\<not> hasConfigPrefix g p"
    and agree: "\<And>c. \<not> hasConfigPrefix g (callPath c) \<Longrightarrow> self c = self0 c"
  shows "processGroupElement self g pd p r el = processGroupElement self0 (noConfig g) pd p r el"
proof (cases "resolveElement g el")
  case None
  then show ?thesis by (simp add: processGroupElement_def)
next
  case (Some res)
  obtain ed nm where res: "res = (ed, nm)" by (cases res)
  have child: "self (ProcessElement (withParentSchema pd ed) (p @ ''/'' @ toStr nm))
             = self0 (ProcessElement (withParentSchema pd ed) (p @ ''/'' @ toStr nm))"
    using agree[of "ProcessElement (withParentSchema pd ed) (p @ ''/'' @ toStr nm)"]
      P hasConfigPrefix_append by auto
  have a1: "arrayLoop self g el (withParentSchema pd ed) p (toStr nm) 0 [] = Some []"
    by (rule arrayLoop_unconfigured[OF P])
  have a2: "arrayLoop self0 (noConfig g) el (withParentSchema pd ed) p (toStr nm) 0 [] = Some []"
    by (rule arrayLoop_unconfigured) simp
  show ?thesis
    unfolding processGroupElement_def Let_def elementKey_noConfig resolveElement_noConfig
    using Some res child a1 a2 by simp
qed

lemma processNested_unconfigured:
  assumes P: "\<not> hasConfigPrefix g p"
    and agree: "\<And>c. \<not> hasConfigPrefix g (callPath c) \<Longrightarrow> self c = self0 c"
  shows "processNested self kind pd p r sub = processNested self0 kind pd p r sub"
  unfolding processNested_def
  using agree[of "ProcessGroup (JObj [(kind, sub), (''_schema'', getp pd ''_schema'')]) p"] P
  by simp

lemma processGroupRef_unconfigured:
  assumes P: "\<not> hasConfigPrefix g p"
    and agree: "\<And>c. \<not> hasConfigPrefix g (callPath c) \<Longrightarrow> self c = self0 c"
  shows "processGroupRef self g p r gr = processGroupRef self0 (noConfig g) p r gr"
  unfolding processGroupRef_def Let_def
  using agree[of "ProcessGroup (getGroup (ctx g) (getp gr ''@_ref'')) p"] P
  by simp

lemma processGroup_unconfigured:
  assumes P: "\<not> hasConfigPrefix g p"
    and agree: "\<And>c. \<not> hasConfigPrefix g (callPath c) \<Longrightarrow> self c = self0 c"
  shows "processGroup self g pd p = processGroup self0 (noConfig g) pd p"
proof -
  have 1: "forEach (processGroupElement self g pd p) r xs
         = forEach (processGroupElement self0 (noConfig g) pd p) r xs" for r xs
    by (rule forEach_cong) (rule processGroupElement_unconfigured[OF P agree])
  have 2: "forEach (processNested self kind pd p) r xs
         = forEach (processNested self0 kind pd p) r xs" for kind r xs
    by (rule forEach_cong) (rule processNested_unconfigured[OF P agree])
  have 3: "forEach (processGroupRef self g p) r xs
         = forEach (processGroupRef self0 (noConfig g) p) r xs" for r xs
    by (rule forEach_cong) (rule processGroupRef_unconfigured[OF P agree])
  show ?thesis unfolding processGroup_def Let_def 1 2 3 by (rule refl)
qed

lemma processComplexType_unconfigured:
  assumes P: "\<not> hasConfigPrefix g p"
    and agree: "\<And>c. \<not> hasConfigPrefix g (callPath c) \<Longrightarrow> self c = self0 c"
  shows "processComplexType self g td p = processComplexType self0 (noConfig g) td p"
proof -
  have a: "processAttributes g d p [] = processAttributes (noConfig g) d p []" for d
    by (rule processAttributes_unconfigured[OF P])
  have b: "self (ProcessComplexType d p) = self0 (ProcessComplexType d p)" for d
    using agree[of "ProcessComplexType d p"] P by simp
  have c: "self (ProcessGroup d p) = self0 (ProcessGroup d p)" for d
    using agree[of "ProcessGroup d p"] P by simp
  show ?thesis unfolding processComplexType_def Let_def a b c noConfig_simps by (rule refl)
qed

lemma processElement_unconfigured:
  assumes P: "\<not> hasConfigPrefix g p"
    and agree: "\<And>c. \<not> hasConfigPrefix g (callPath c) \<Longrightarrow> self c = self0 c"
  shows "processElement self g ed p = processElement self0 (noConfig g) ed p"
proof -
  have l: "leafValue g p = leafValue (noConfig g) p"
    using leafValue_unconfigured[OF P] leafValue_unconfigured[of "noConfig g" p] by simp
  have b: "self (ProcessComplexType d p) = self0 (ProcessComplexType d p)" for d
    using agree[of "ProcessComplexType d p"] P by simp
  show ?thesis unfolding processElement_def Let_def l b noConfig_simps by (rule refl)
qed

lemma run_unconfigured:
  "\<not> hasConfigPrefix g (callPath c) \<Longrightarrow> run g depth c = run (noConfig g) depth c"
proof (induction depth arbitrary: c)
  case 0
  then show ?case by simp
next
  case (Suc depth)
  show ?case
  proof (cases c)
    case (ProcessElement ed p)
    then show ?thesis
      using Suc.prems processElement_unconfigured[of g p "run g depth" "run (noConfig g) depth", OF _ Suc.IH]
      by (simp add: dispatch_def)
  next
    case (ProcessComplexType td p)
    then show ?thesis
      using Suc.prems processComplexType_unconfigured[of g p "run g depth" "run (noConfig g) depth", OF _ Suc.IH]
      by (simp add: dispatch_def)
  next
    case (ProcessGroup pd p)
    then show ?thesis
      using Suc.prems processGroup_unconfigured[of g p "run g depth" "run (noConfig g) depth", OF _ Suc.IH]
      by (simp add: dispatch_def)
  qed
qed

lemma attributesOnly_objset:
  assumes "attributesOnly (JObj r)" and "startsWith k ''@_'' \<or> attributesOnly v"
  shows "attributesOnly (JObj (objset r k v))"
  using assms by (induction r) auto

lemma attributesOnly_assign:
  assumes "attributesOnly (JObj r)" and "s = JNull \<or> attributesOnly s"
  shows "attributesOnly (JObj (assign r s))"
proof (cases s)
  case (JObj kvs)
  then have all: "list_all (\<lambda>kv. startsWith (fst kv) ''@_'' \<or> attributesOnly (snd kv)) kvs"
    using assms(2) by simp
  have "attributesOnly (JObj (foldl (\<lambda>t (k, v). objset t k v) r kvs))"
    using assms(1) all
  proof (induction kvs arbitrary: r)
    case Nil
    then show ?case by simp
  next
    case (Cons kv kvs)
    obtain k v where kv: "kv = (k, v)" by (cases kv)
    have "attributesOnly (JObj (objset r k v))"
      using attributesOnly_objset[OF Cons.prems(1), of k v] Cons.prems(2) kv by simp
    then show ?case using Cons.IH[of "objset r k v"] Cons.prems(2) kv by simp
  qed
  then show ?thesis using JObj by (simp add: assign_def)
qed (use assms(1) in \<open>simp_all add: assign_def\<close>)

lemma attributesOnly_processAttributes:
  assumes "attributesOnly (JObj r)"
  shows "attributesOnly (JObj (processAttributes g d p r))"
proof -
  have "attributesOnly (JObj (foldl (processAttribute g p) r xs))" for xs
    using assms
  proof (induction xs arbitrary: r)
    case Nil
    then show ?case by simp
  next
    case (Cons a xs)
    have "startsWith (''@_'' @ toStr (getp a ''@_name'')) ''@_''"
      by (simp add: startsWith_def)
    then have "attributesOnly (JObj (processAttribute g p r a))"
      unfolding processAttribute_def Let_def
      using attributesOnly_objset[OF Cons.prems] Cons.prems by auto
    then show ?case using Cons.IH by simp
  qed
  then show ?thesis by (simp add: processAttributes_def)
qed

lemma attributesOnly_nonEmptyOrNull:
  "attributesOnly (JObj r) \<Longrightarrow> nonEmptyOrNull r = JNull \<or> attributesOnly (nonEmptyOrNull r)"
  by (simp add: nonEmptyOrNull_def)

lemma processGroupElement_shape:
  assumes P: "\<not> hasConfigPrefix g p"
    and shape: "\<And>c v. \<not> hasConfigPrefix g (callPath c) \<Longrightarrow> self c = Some v
                  \<Longrightarrow> v = JNull \<or> attributesOnly v"
    and r: "attributesOnly (JObj r)"
    and res: "processGroupElement self g pd p r el = Some r'"
  shows "attributesOnly (JObj r')"
proof (cases "resolveElement g el")
  case None
  then show ?thesis using res r by (simp add: processGroupElement_def)
next
  case (Some e)
  obtain ed nm where e: "e = (ed, nm)" by (cases e)
  have a1: "arrayLoop self g el (withParentSchema pd ed) p (toStr nm) 0 [] = Some []"
    by (rule arrayLoop_unconfigured[OF P])
  have child: "self (ProcessElement (withParentSchema pd ed) (p @ ''/'' @ toStr nm)) = Some v
                 \<Longrightarrow> v = JNull \<or> attributesOnly v" for v
    using shape[of "ProcessElement (withParentSchema pd ed) (p @ ''/'' @ toStr nm)" v]
      P hasConfigPrefix_append by auto
  show ?thesis
  proof (cases "truthy nm \<and> \<not> isArray el")
    case True
    then obtain v where v: "self (ProcessElement (withParentSchema pd ed) (p @ ''/'' @ toStr nm)) = Some v"
      and r': "r' = (if v \<noteq> JNull
                     then objset r (elementKey g (withParentSchema pd ed) (toStr nm)) v else r)"
      using res Some e unfolding processGroupElement_def Let_def
      by (auto split: option.splits)
    show ?thesis
      using child[OF v] r r' attributesOnly_objset[OF r] by auto
  next
    case False
    then have "r' = r"
      using res Some e a1 unfolding processGroupElement_def Let_def
      by (auto split: if_splits)
    then show ?thesis using r by simp
  qed
qed

lemma processNested_shape:
  assumes P: "\<not> hasConfigPrefix g p"
    and shape: "\<And>c v. \<not> hasConfigPrefix g (callPath c) \<Longrightarrow> self c = Some v
                  \<Longrightarrow> v = JNull \<or> attributesOnly v"
    and r: "attributesOnly (JObj r)"
    and res: "processNested self kind pd p r sub = Some r'"
  shows "attributesOnly (JObj r')"
proof -
  obtain v where v: "self (ProcessGroup (JObj [(kind, sub), (''_schema'', getp pd ''_schema'')]) p) = Some v"
    and r': "r' = assign r v"
    using res unfolding processNested_def by (auto split: option.splits)
  have "v = JNull \<or> attributesOnly v" using shape[OF _ v] P by simp
  then show ?thesis unfolding r' by (rule attributesOnly_assign[OF r])
qed

lemma processGroupRef_shape:
  assumes P: "\<not> hasConfigPrefix g p"
    and shape: "\<And>c v. \<not> hasConfigPrefix g (callPath c) \<Longrightarrow> self c = Some v
                  \<Longrightarrow> v = JNull \<or> attributesOnly v"
    and r: "attributesOnly (JObj r)"
    and res: "processGroupRef self g p r gr = Some r'"
  shows "attributesOnly (JObj r')"
proof (cases "truthy (getGroup (ctx g) (getp gr ''@_ref''))")
  case True
  then obtain v where v: "self (ProcessGroup (getGroup (ctx g) (getp gr ''@_ref'')) p) = Some v"
    and r': "r' = assign r v"
    using res unfolding processGroupRef_def Let_def by (auto split: option.splits)
  have "v = JNull \<or> attributesOnly v" using shape[OF _ v] P by simp
  then show ?thesis unfolding r' by (rule attributesOnly_assign[OF r])
next
  case False
  then show ?thesis using res r unfolding processGroupRef_def Let_def by simp
qed

lemma processGroup_shape:
  assumes P: "\<not> hasConfigPrefix g p"
    and shape: "\<And>c v. \<not> hasConfigPrefix g (callPath c) \<Longrightarrow> self c = Some v
                  \<Longrightarrow> v = JNull \<or> attributesOnly v"
    and res: "processGroup self g pd p = Some v"
  shows "attributesOnly v"
proof (cases "groupKeyOf pd")
  case None
  then show ?thesis using res by (auto simp: processGroup_def)
next
  case (Some gk)
  let ?c = "getp pd gk"
  obtain r1 r2 r3 r4 where
    1: "forEach (processGroupElement self g pd p) [] (ensureArray ?c ''element'') = Some r1"
    and 2: "forEach (processNested self ''choice'' pd p) r1 (ensureArray ?c ''choice'') = Some r2"
    and 3: "forEach (processNested self ''sequence'' pd p) r2 (ensureArray ?c ''sequence'') = Some r3"
    and 4: "forEach (processGroupRef self g p) r3 (ensureArray ?c ''group'') = Some r4"
    and v: "v = JObj r4"
    using res Some unfolding processGroup_def Let_def by (auto split: option.splits)
  have a1: "attributesOnly (JObj r1)"
    by (rule forEach_invariant[where I = "\<lambda>r. attributesOnly (JObj r)", OF 1])
       (simp, rule processGroupElement_shape[OF P shape])
  have a2: "attributesOnly (JObj r2)"
    by (rule forEach_invariant[where I = "\<lambda>r. attributesOnly (JObj r)", OF 2 a1])
       (rule processNested_shape[OF P shape])
  have a3: "attributesOnly (JObj r3)"
    by (rule forEach_invariant[where I = "\<lambda>r. attributesOnly (JObj r)", OF 3 a2])
       (rule processNested_shape[OF P shape])
  have a4: "attributesOnly (JObj r4)"
    by (rule forEach_invariant[where I = "\<lambda>r. attributesOnly (JObj r)", OF 4 a3])
       (rule processGroupRef_shape[OF P shape])
  then show ?thesis using v by simp
qed

lemma processComplexType_shape:
  assumes P: "\<not> hasConfigPrefix g p"
    and shape: "\<And>c v. \<not> hasConfigPrefix g (callPath c) \<Longrightarrow> self c = Some v
                  \<Longrightarrow> v = JNull \<or> attributesOnly v"
    and res: "processComplexType self g td p = Some v"
  shows "v = JNull \<or> attributesOnly v"
proof -
  have attrs: "attributesOnly (JObj (processAttributes g d p []))" for d
    by (rule attributesOnly_processAttributes) simp
  have sub: "self (ProcessComplexType d p) = Some w \<Longrightarrow> w = JNull \<or> attributesOnly w" for d w
    using shape[of "ProcessComplexType d p" w] P by simp
  have grp: "self (ProcessGroup d p) = Some w \<Longrightarrow> w = JNull \<or> attributesOnly w" for d w
    using shape[of "ProcessGroup d p" w] P by simp
  have fin: "attributesOnly (JObj r) \<Longrightarrow> w = JNull \<or> attributesOnly w
               \<Longrightarrow> nonEmptyOrNull (assign r w) = JNull \<or> attributesOnly (nonEmptyOrNull (assign r w))"
    for r w
    using attributesOnly_nonEmptyOrNull[OF attributesOnly_assign] by blast
  show ?thesis
  proof (cases "find (named ''complexContent'') (keys td)")
    case None
    then obtain w where w: "self (ProcessGroup td p) = Some w"
      and v: "v = nonEmptyOrNull (assign (processAttributes g td p []) w)"
      using res unfolding processComplexType_def Let_def by (auto split: option.splits)
    show ?thesis unfolding v by (rule fin[OF attrs grp[OF w]])
  next
    case (Some ck)
    show ?thesis
    proof (cases "find (named ''extension'') (keys (getp td ck))")
      case None
      then have "v = JNull"
        using res Some unfolding processComplexType_def Let_def by (simp add: nonEmptyOrNull_def)
      then show ?thesis by simp
    next
      case ext: (Some ek)
      let ?ext = "getp (getp td ck) ek"
      let ?base = "if truthy (getp ?ext ''@_base'')
                   then findType (ctx g) (getp ?ext ''@_base'') (getp td ''_schema'') else JNull"
      obtain r1 w where r1: "(if truthy ?base
                         then (case self (ProcessComplexType ?base p) of
                                 None \<Rightarrow> None
                               | Some baseContent \<Rightarrow>
                                   Some (assign (processAttributes g ?ext p []) baseContent))
                         else Some (processAttributes g ?ext p [])) = Some r1"
        and w: "self (ProcessGroup (JObj (objset (spread ?ext) ''_schema'' (getp td ''_schema''))) p)
                  = Some w"
        and v: "v = nonEmptyOrNull (assign r1 w)"
        using res Some ext unfolding processComplexType_def Let_def
        by (auto split: option.splits)
      have "attributesOnly (JObj r1)"
      proof (cases "truthy ?base")
        case True
        then obtain b where b: "self (ProcessComplexType ?base p) = Some b"
          and "r1 = assign (processAttributes g ?ext p []) b"
          using r1 by (auto split: option.splits)
        then show ?thesis using attributesOnly_assign[OF attrs sub[OF b]] by simp
      next
        case False
        then show ?thesis using r1 attrs by auto
      qed
      then show ?thesis unfolding v using fin grp[OF w] by blast
    qed
  qed
qed

lemma processElement_shape:
  assumes P: "\<not> hasConfigPrefix g p"
    and shape: "\<And>c v. \<not> hasConfigPrefix g (callPath c) \<Longrightarrow> self c = Some v
                  \<Longrightarrow> v = JNull \<or> attributesOnly v"
    and res: "processElement self g ed p = Some v"
  shows "v = JNull \<or> attributesOnly v"
proof -
  have sub: "self (ProcessComplexType d p) = Some w \<Longrightarrow> w = JNull \<or> attributesOnly w" for d w
    using shape[of "ProcessComplexType d p" w] P by simp
  show ?thesis
    using res sub unfolding processElement_def Let_def leafValue_unconfigured[OF P]
    by (auto split: if_splits)
qed

lemma run_shape:
  "\<not> hasConfigPrefix g (callPath c) \<Longrightarrow> run g depth c = Some v \<Longrightarrow> v = JNull \<or> attributesOnly v"
proof (induction depth arbitrary: c v)
  case 0
  then show ?case by simp
next
  case (Suc depth)
  show ?case
  proof (cases c)
    case (ProcessElement ed p)
    then show ?thesis
      using Suc.prems processElement_shape[of g p "run g depth", OF _ Suc.IH]
      by (simp add: dispatch_def)
  next
    case (ProcessComplexType td p)
    then show ?thesis
      using Suc.prems processComplexType_shape[of g p "run g depth", OF _ Suc.IH]
      by (simp add: dispatch_def)
  next
    case (ProcessGroup pd p)
    then show ?thesis
      using Suc.prems processGroup_shape[of g p "run g depth", OF _ Suc.IH]
      by (simp add: dispatch_def)
  qed
qed


section \<open>The depth budget\<close>

lemma extendsD: "extends self self' \<Longrightarrow> self c = Some v \<Longrightarrow> self' c = Some v"
  by (simp add: extends_def)

lemma arrayLoop_extends:
  "extends self self' \<Longrightarrow>
   arrayLoop self g el elementDef currentPath elName idx items = Some res
   \<Longrightarrow> arrayLoop self' g el elementDef currentPath elName idx items = Some res"
proof (induction self g el elementDef currentPath elName idx items arbitrary: res
        rule: arrayLoop.induct)
  case (1 self g el elementDef currentPath elName idx items)
  let ?ip = "indexedPath currentPath elName idx"
  let ?sp = "currentPath @ ''/'' @ elName"
  note ext = extendsD[OF "1.prems"(1)]
  show ?case
  proof (cases "idx = 0 \<and> \<not> hasConfigPrefix g ?ip \<and> hasConfigPrefix g ?sp")
    case True
    then obtain c where c: "self (ProcessElement elementDef ?sp) = Some c"
      and res: "res = (if truthy c then items @ [c] else items)"
      using "1.prems"(2) by (subst (asm) arrayLoop_unfold) (auto split: option.splits if_splits)
    show ?thesis using True ext[OF c] res by (subst arrayLoop_unfold) auto
  next
    case notSingle: False
    show ?thesis
    proof (cases "hasConfigPrefix g ?ip")
      case False
      then have "res = items" using "1.prems"(2) notSingle
        by (subst (asm) arrayLoop_unfold) auto
      then show ?thesis using False notSingle by (subst arrayLoop_unfold) auto
    next
      case True
      then obtain c where c: "self (ProcessElement elementDef ?ip) = Some c"
        using "1.prems"(2) notSingle
        by (subst (asm) arrayLoop_unfold) (auto split: option.splits)
      show ?thesis
      proof (cases "truthy c")
        case False
        then have "res = items" using "1.prems"(2) True c
          by (subst (asm) arrayLoop_unfold) auto
        then show ?thesis using True ext[OF c] False by (subst arrayLoop_unfold) auto
      next
        case truthy: True
        have r: "arrayLoop self g el elementDef currentPath elName (Suc idx) (items @ [c]) = Some res"
          using "1.prems"(2) True c truthy
          by (subst (asm) arrayLoop_unfold) auto
        have "arrayLoop self' g el elementDef currentPath elName (Suc idx) (items @ [c]) = Some res"
          using "1.IH"[OF refl refl refl refl, of c res] True notSingle c truthy r "1.prems"(1)
          by (simp add: indexedPath_def)
        then show ?thesis using True ext[OF c] truthy notSingle by (subst arrayLoop_unfold) auto
      qed
    qed
  qed
qed

lemma processElement_extends:
  assumes "extends self self'" and "processElement self g ed p = Some v"
  shows "processElement self' g ed p = Some v"
  using assms(2) extendsD[OF assms(1)] unfolding processElement_def Let_def
  by (auto split: if_splits)

lemma processComplexType_extends:
  assumes "extends self self'" and "processComplexType self g td p = Some v"
  shows "processComplexType self' g td p = Some v"
  using assms(2) extendsD[OF assms(1)] unfolding processComplexType_def Let_def
  by (auto split: if_splits option.splits)

lemma processGroupElement_extends:
  assumes "extends self self'" and "processGroupElement self g pd p r el = Some r'"
  shows "processGroupElement self' g pd p r el = Some r'"
  using assms(2) extendsD[OF assms(1)] arrayLoop_extends[OF assms(1)]
  unfolding processGroupElement_def Let_def
  by (auto split: if_splits option.splits)

lemma processNested_extends:
  assumes "extends self self'" and "processNested self kind pd p r sub = Some r'"
  shows "processNested self' kind pd p r sub = Some r'"
  using assms(2) extendsD[OF assms(1)] unfolding processNested_def
  by (auto split: option.splits)

lemma processGroupRef_extends:
  assumes "extends self self'" and "processGroupRef self g p r gr = Some r'"
  shows "processGroupRef self' g p r gr = Some r'"
  using assms(2) extendsD[OF assms(1)] unfolding processGroupRef_def Let_def
  by (auto split: if_splits option.splits)

lemma processGroup_extends:
  assumes e: "extends self self'" and res: "processGroup self g pd p = Some v"
  shows "processGroup self' g pd p = Some v"
proof (cases "groupKeyOf pd")
  case None
  then show ?thesis using res by (simp add: processGroup_def)
next
  case (Some gk)
  let ?c = "getp pd gk"
  obtain r1 r2 r3 r4 where
    1: "forEach (processGroupElement self g pd p) [] (ensureArray ?c ''element'') = Some r1"
    and 2: "forEach (processNested self ''choice'' pd p) r1 (ensureArray ?c ''choice'') = Some r2"
    and 3: "forEach (processNested self ''sequence'' pd p) r2 (ensureArray ?c ''sequence'') = Some r3"
    and 4: "forEach (processGroupRef self g p) r3 (ensureArray ?c ''group'') = Some r4"
    and v: "v = JObj r4"
    using res Some unfolding processGroup_def Let_def by (auto split: option.splits)
  have e1: "forEach (processGroupElement self' g pd p) [] (ensureArray ?c ''element'') = Some r1"
    by (rule forEach_mono[OF 1]) (rule processGroupElement_extends[OF e])
  have e2: "forEach (processNested self' ''choice'' pd p) r1 (ensureArray ?c ''choice'') = Some r2"
    by (rule forEach_mono[OF 2]) (rule processNested_extends[OF e])
  have e3: "forEach (processNested self' ''sequence'' pd p) r2 (ensureArray ?c ''sequence'') = Some r3"
    by (rule forEach_mono[OF 3]) (rule processNested_extends[OF e])
  have e4: "forEach (processGroupRef self' g p) r3 (ensureArray ?c ''group'') = Some r4"
    by (rule forEach_mono[OF 4]) (rule processGroupRef_extends[OF e])
  show ?thesis using Some e1 e2 e3 e4 v unfolding processGroup_def Let_def by simp
qed

lemma dispatch_extends:
  assumes "extends self self'"
  shows "extends (dispatch g self) (dispatch g self')"
  unfolding extends_def dispatch_def
  using processElement_extends[OF assms] processComplexType_extends[OF assms]
    processGroup_extends[OF assms]
  by (auto split: call.splits)

lemma run_extends: "extends (run g depth) (run g (Suc depth))"
proof (induction depth)
  case 0
  then show ?case by (simp add: extends_def)
next
  case (Suc depth)
  then show ?case using dispatch_extends by simp
qed

lemma run_depth_mono: "run g depth c = Some v \<Longrightarrow> run g (depth + k) c = Some v"
  by (induction k) (auto dest: extendsD[OF run_extends])

lemma generate_depth_mono:
  assumes "generate g depth rootElementName startPath typeOverride = Some r"
  shows "generate g (Suc depth) rootElementName startPath typeOverride = Some r"
proof -
  have m: "run g depth c = Some v \<Longrightarrow> run g (Suc depth) c = Some v" for c v
    using extendsD[OF run_extends] by blast
  show ?thesis
    using assms m unfolding generate_def Let_def
    by (auto split: if_splits option.splits)
qed

section \<open>The demonstration schema\<close>

lemma demo_sparse:
  "generate (demoGen sparseConfig) 7 ''Root'' ''Root'' JNull
     = Some (Inr (JObj [(''d:Root'', JObj
         [(''d:Items'', JArr [JObj [(''d:v'', JStr ''a'')]]),
          (''d:Header'', JObj [(''@_version'', JStr ''1.0'')])])]))"
  by code_simp

lemma demo_falsy:
  "generate (demoGen falsyConfig) 7 ''Root'' ''Root'' JNull
     = Some (Inr (JObj [(''d:Root'', JObj
         [(''d:Header'', JObj [(''@_version'', JStr ''1.0'')]),
          (''d:Count'', JNum 0),
          (''d:Nums'', JArr [JNum 3])])]))"
  by code_simp

lemma demo_prefixed_root:
  "generate (demoGen childConfig) 7 ''m:Root'' ''Root'' JNull
     = Some (Inr (JObj [(''d:m:Root'', JObj
         [(''d:Child'', JStr ''X''),
          (''d:Header'', JObj [(''@_version'', JStr ''1.0'')])])]))"
  by code_simp

lemma demo_extension:
  "generate (demoGen extConfig) 5 ''Doc'' ''Doc'' JNull
     = Some (Inr (JObj [(''d:Doc'', JObj [(''d:b'', JStr ''B''), (''d:e'', JStr ''E'')])]))"
  by code_simp



theorem arrayLoop_contiguous_witness:
  "arrayLoop (run (demoGen sparseConfig) 4) (demoGen sparseConfig) itemsDecl
      (withParentSchema demoRootType itemsDecl) ''Root'' ''Items'' 0 []
     = Some [JObj [(''d:v'', JStr ''a'')]]
   \<and> hasConfigPrefix (demoGen sparseConfig) (indexedPath ''Root'' ''Items'' 0)
   \<and> \<not> hasConfigPrefix (demoGen sparseConfig) (indexedPath ''Root'' ''Items'' 1)
   \<and> hasConfigPrefix (demoGen sparseConfig) (indexedPath ''Root'' ''Items'' 2)
   \<and> length [JObj [(''d:v'', JStr ''a'')]] \<le> (1::nat)"
proof -
  have e: "arrayLoop (run (demoGen sparseConfig) 4) (demoGen sparseConfig) itemsDecl
      (withParentSchema demoRootType itemsDecl) ''Root'' ''Items'' 0 []
     = Some [JObj [(''d:v'', JStr ''a'')]]"
    by code_simp
  have h0: "hasConfigPrefix (demoGen sparseConfig) (indexedPath ''Root'' ''Items'' 0)"
    by code_simp
  have h1: "\<not> hasConfigPrefix (demoGen sparseConfig) (indexedPath ''Root'' ''Items'' 1)"
    by code_simp
  have h2: "hasConfigPrefix (demoGen sparseConfig) (indexedPath ''Root'' ''Items'' 2)"
    by code_simp
  have "length [JObj [(''d:v'', JStr ''a'')]] \<le> (1::nat)"
    using arrayLoop_contiguous[OF e] h1 by blast
  then show ?thesis using e h0 h1 h2 by blast
qed

theorem falsy_scalar_array_versus_singleton_witness:
  "arrayLoop (run (demoGen falsyConfig) 2) (demoGen falsyConfig) numsDecl
      (withParentSchema demoRootType numsDecl) ''Root'' ''Nums'' 1 [JNum 3]
     = Some [JNum 3]
   \<and> processGroupElement (run (demoGen falsyConfig) 2) (demoGen falsyConfig) demoRootType ''Root''
        [] countDecl
     = Some [(''d:Count'', JNum 0)]"
proof -
  let ?g = "demoGen falsyConfig"
  have v: "JNum 0 \<in> {JNum 0, JBool False, JStr []}" by simp
  have rn: "resolveElement ?g numsDecl = Some (numsDecl, JStr ''Nums'')" by code_simp
  have rc: "resolveElement ?g countDecl = Some (countDecl, JStr ''Count'')" by code_simp
  have t1: "truthy (JStr ''Nums'')" and t2: "truthy (JStr ''Count'')" by simp_all
  have hn: "hasConfigPrefix ?g (indexedPath ''Root'' (toStr (JStr ''Nums'')) 1)" by code_simp
  have pn: "run ?g 2 (ProcessElement (withParentSchema demoRootType numsDecl)
                         (indexedPath ''Root'' (toStr (JStr ''Nums'')) 1)) = Some (JNum 0)"
    by code_simp
  have na: "\<not> isArray countDecl" by code_simp
  have pc: "run ?g 2 (ProcessElement (withParentSchema demoRootType countDecl)
                         (''Root'' @ ''/'' @ toStr (JStr ''Count''))) = Some (JNum 0)"
    by code_simp
  have k: "elementKey ?g (withParentSchema demoRootType countDecl) (toStr (JStr ''Count''))
             = ''d:Count''"
    by code_simp
  have a: "arrayLoop (run ?g 2) ?g numsDecl (withParentSchema demoRootType numsDecl) ''Root''
             (toStr (JStr ''Nums'')) 1 [JNum 3] = Some [JNum 3]"
    using falsy_scalar_array_versus_singleton[OF v rn t1 refl, of "''Root''" 1 "run ?g 2"] hn pn
    by blast
  have b: "processGroupElement (run ?g 2) ?g demoRootType ''Root'' [] countDecl
             = Some (objset [] (elementKey ?g (withParentSchema demoRootType countDecl)
                                  (toStr (JStr ''Count''))) (JNum 0))"
    using falsy_scalar_array_versus_singleton[OF v rc t2 refl, of "''Root''" _ "run ?g 2"] na pc
    by blast
  show ?thesis using a b unfolding k by simp
qed

lemma distinct_objset:
  "distinct (map fst r) \<Longrightarrow> distinct (map fst (objset r k v))"
  by (simp add: keys_objset_list del: set_map)

lemma distinct_assign:
  assumes "distinct (map fst r)"
  shows "distinct (map fst (assign r s))"
proof (cases s)
  case (JObj kvs)
  have "distinct (map fst (foldl (\<lambda>t (k, v). objset t k v) r kvs))"
    using assms
  proof (induction kvs arbitrary: r)
    case Nil
    then show ?case by simp
  next
    case (Cons kv kvs)
    obtain k v where kv: "kv = (k, v)" by (cases kv)
    show ?case using Cons.IH[OF distinct_objset[OF Cons.prems, of k v]] kv by simp
  qed
  then show ?thesis using JObj by (simp add: assign_def)
qed (use assms in \<open>simp_all add: assign_def\<close>)

lemma distinct_processAttributes:
  "distinct (map fst (processAttributes g d p []))"
proof -
  have "distinct (map fst r) \<Longrightarrow> distinct (map fst (foldl (processAttribute g p) r xs))" for r xs
  proof (induction xs arbitrary: r)
    case Nil
    then show ?case by simp
  next
    case (Cons a xs)
    have "distinct (map fst (processAttribute g p r a))"
      unfolding processAttribute_alt using distinct_objset[OF Cons.prems] Cons.prems by simp
    then show ?case using Cons.IH by simp
  qed
  then show ?thesis by (simp add: processAttributes_def)
qed





text \<open>
  C10. The single key of the object \<open>generate\<close> returns is built from the root element
  name as the caller wrote it, with the namespace prefix of the resolved element put in
  front when one is known; the name declared by the resolved element is not used. A key
  written by the element callback of \<open>processGroup\<close> is built in the same way from the
  name that the resolved element definition declares.
\<close>

theorem generate_root_key_verbatim:
  "(generate g depth rootElementName startPath typeOverride = Some (Inr (JObj kvs)) \<longrightarrow>
      (\<exists>content. kvs = [(elementKey g (resolveRoot g rootElementName) rootElementName, content)]))
   \<and> (elementKey g elementDef elName = elName
        \<or> (\<exists>pfx. elementKey g elementDef elName = pfx @ '':'' @ elName))
   \<and> (processGroupElement self g parentDef currentPath result el = Some result' \<longrightarrow>
        result' = result
        \<or> (\<exists>resolved content.
              resolveElement g el = Some (resolved, getp resolved ''@_name'')
              \<and> result' = objset result
                    (elementKey g (withParentSchema parentDef resolved)
                       (toStr (getp resolved ''@_name''))) content))"
  using generate_root_key[of g depth rootElementName startPath typeOverride kvs]
    elementKey_forms[of g elementDef elName]
    processGroupElement_key[of self g parentDef currentPath result el result']
  by blast

theorem generate_root_key_verbatim_witness:
  "generate (demoGen childConfig) 7 ''m:Root'' ''Root'' JNull
     = Some (Inr (JObj [(''d:m:Root'', JObj
         [(''d:Child'', JStr ''X''),
          (''d:Header'', JObj [(''@_version'', JStr ''1.0'')])])]))
   \<and> elementKey (demoGen childConfig) (resolveRoot (demoGen childConfig) ''m:Root'') ''m:Root''
       = ''d:m:Root''
   \<and> getp (resolveRoot (demoGen childConfig) ''m:Root'') ''@_name'' = JStr ''Root''
   \<and> processGroupElement (run (demoGen childConfig) 1) (demoGen childConfig) demoRootType ''Root''
        [] childDecl
       = Some [(''d:Child'', JStr ''X'')]
   \<and> getp childDecl ''@_name'' = JStr ''Child''"
proof -
  let ?g = "demoGen childConfig"
  have e: "generate ?g 7 ''m:Root'' ''Root'' JNull
     = Some (Inr (JObj [(''d:m:Root'', JObj
         [(''d:Child'', JStr ''X''),
          (''d:Header'', JObj [(''@_version'', JStr ''1.0'')])])]))"
    by code_simp
  have n: "getp (resolveRoot ?g ''m:Root'') ''@_name'' = JStr ''Root''" by code_simp
  have c: "processGroupElement (run ?g 1) ?g demoRootType ''Root'' [] childDecl
             = Some [(''d:Child'', JStr ''X'')]"
    by code_simp
  have cn: "getp childDecl ''@_name'' = JStr ''Child''" by code_simp
  have "\<exists>content. [(''d:m:Root'', JObj
         [(''d:Child'', JStr ''X''),
          (''d:Header'', JObj [(''@_version'', JStr ''1.0'')])])]
        = [(elementKey ?g (resolveRoot ?g ''m:Root'') ''m:Root'', content)]"
    using generate_root_key_verbatim[of ?g 7 "''m:Root''" "''Root''" JNull] e by blast
  then have k: "elementKey ?g (resolveRoot ?g ''m:Root'') ''m:Root'' = ''d:m:Root''" by auto
  show ?thesis using e k n c cn by blast
qed

end
